theory Spec2Isabelle
  imports Complex_Main "HOL-Library.AList"
begin

section \<open>Goal Tracker: the layout manager and the week calendar\<close>

text \<open>
  A shallow embedding of \<^verbatim>\<open>src/goal_tracker.py\<close>: the class \<^verbatim>\<open>LayoutManager\<close>, the
  month partition loop of \<^verbatim>\<open>GoalTrackerPDF.draw_monthly_column\<close> and the date labels of
  \<^verbatim>\<open>GoalTrackerPDF.draw_weekly_column\<close>.

  Python \<^verbatim>\<open>int\<close> is \<^typ>\<open>int\<close>. Python \<^verbatim>\<open>float\<close> is modelled by \<^typ>\<open>real\<close>: a length
  is an exact number, and every statement about lengths below is a statement of exact
  arithmetic. The rounding of the IEEE doubles that the interpreter computes with is
  not part of the model; on the doubles, an equation between lengths holds up to that
  rounding.
  A Python call that may raise returns \<open>py_error + 'a\<close>, with \<open>Inl\<close> for the exception.
\<close>

subsection \<open>Exceptions\<close>

datatype py_error = ValueError | OverflowError | KeyError | IndexError

text \<open>Sequencing of two calls: the first exception raised is the result.\<close>

definition and_then :: "py_error + 'a \<Rightarrow> ('a \<Rightarrow> py_error + 'b) \<Rightarrow> py_error + 'b" where
  "and_then r f = (case r of Inl e \<Rightarrow> Inl e | Inr v \<Rightarrow> f v)"

text \<open>
  \<^verbatim>\<open>xs[i]\<close> on a Python list: a negative index counts from the end, and an index out of
  range raises \<^verbatim>\<open>IndexError\<close>.
\<close>

definition py_index :: "'a list \<Rightarrow> int \<Rightarrow> py_error + 'a" where
  "py_index xs i =
     (if 0 \<le> i \<and> i < int (length xs) then Inr (xs ! nat i)
      else if i < 0 \<and> - int (length xs) \<le> i then Inr (xs ! nat (int (length xs) + i))
      else Inl IndexError)"

subsection \<open>Page configuration\<close>

text \<open>
  \<^verbatim>\<open>reportlab.lib.units.inch\<close>, the number of points in an inch. The test fixture of the
  repository uses the same value (612 points for 8.5 inches).
\<close>

definition inch :: real where
  "inch = 72.0"

record PageConfig =
  width :: real
  height :: real
  top_margin :: real
  bottom_margin :: real
  left_margin :: real
  right_margin :: real

subsection \<open>\<^verbatim>\<open>LayoutManager\<close>\<close>

definition WEEKS_IN_YEAR :: int where
  "WEEKS_IN_YEAR = 52"

definition WEEKS_PER_QUARTER :: int where
  "WEEKS_PER_QUARTER = 13"

definition WEEKS_PER_MONTH :: int where
  "WEEKS_PER_MONTH = 4"

definition MONTHS_IN_YEAR :: int where
  "MONTHS_IN_YEAR = 12"

definition QUARTERS_IN_YEAR :: int where
  "QUARTERS_IN_YEAR = 4"

definition CATCH_UP_WEEKS :: "int set" where
  "CATCH_UP_WEEKS = {13, 26, 39, 52}"

text \<open>
  The attributes of a \<^verbatim>\<open>LayoutManager\<close> object. \<^verbatim>\<open>layout_config\<close> is the dictionary of
  column widths, which the constructor only stores.
\<close>

record LayoutManager =
  page_config :: PageConfig
  layout_config :: "(string \<times> real) list"
  available_width :: real
  available_height :: real
  calculated_row_height :: real

text \<open>
  \<^verbatim>\<open>_calculate_dimensions\<close>, applied by the constructor to the two attributes it has just
  stored. The header height of the row computation is the local constant \<^verbatim>\<open>0.6 * inch\<close>.
\<close>

definition calculate_dimensions :: "PageConfig \<Rightarrow> (string \<times> real) list \<Rightarrow> LayoutManager" where
  "calculate_dimensions pc lc =
     (let aw = width pc - left_margin pc - right_margin pc;
          bonus_height = min (0.1 * inch) (bottom_margin pc * 0.5);
          ah = height pc - top_margin pc - bottom_margin pc + bonus_height;
          header_height = 0.6 * inch;
          available_for_rows = ah - header_height
      in \<lparr> page_config = pc, layout_config = lc,
           available_width = aw, available_height = ah,
           calculated_row_height = available_for_rows / real_of_int WEEKS_IN_YEAR \<rparr>)"

text \<open>
  \<^verbatim>\<open>LayoutManager.__init__\<close>. The source has no \<^verbatim>\<open>raise\<close> and no check on its way: the
  arithmetic of \<^verbatim>\<open>_calculate_dimensions\<close> on floats cannot fail, so the result is always
  an object.
\<close>

definition LayoutManager_init :: "PageConfig \<Rightarrow> (string \<times> real) list \<Rightarrow> py_error + LayoutManager" where
  "LayoutManager_init pc lc = Inr (calculate_dimensions pc lc)"

definition get_row_height :: "LayoutManager \<Rightarrow> real" where
  "get_row_height self = calculated_row_height self"

definition get_header_height :: "LayoutManager \<Rightarrow> real" where
  "get_header_height self = 0.5 * inch"

definition get_week_y_position :: "LayoutManager \<Rightarrow> int \<Rightarrow> real" where
  "get_week_y_position self week_number =
     (let row_height = get_row_height self;
          header_height = get_header_height self
      in height (page_config self) - top_margin (page_config self) - header_height
           - real_of_int (week_number - 1) * row_height)"

text \<open>
  \<^verbatim>\<open>get_quarter_for_week\<close>: Python's \<^verbatim>\<open>//\<close> on integers rounds down, as \<open>div\<close> does on
  \<^typ>\<open>int\<close>. The divisor is the constant 13, and there is no range check, so no input raises.
\<close>

definition get_quarter_for_week :: "int \<Rightarrow> py_error + int" where
  "get_quarter_for_week week_number = Inr ((week_number - 1) div WEEKS_PER_QUARTER + 1)"

text \<open>
  The dictionary \<^verbatim>\<open>month_mapping\<close> of \<^verbatim>\<open>get_month_for_week\<close>, in insertion order: the
  key \<^verbatim>\<open>range(a, b)\<close> is the pair \<open>(a, b)\<close>.
\<close>

definition month_mapping :: "((int \<times> int) \<times> int) list" where
  "month_mapping =
     [((1, 5), 1), ((5, 9), 2), ((9, 13), 3),
      ((14, 18), 4), ((18, 22), 5), ((22, 26), 6),
      ((27, 31), 7), ((31, 35), 8), ((35, 39), 9),
      ((40, 44), 10), ((44, 48), 11), ((48, 52), 12)]"

text \<open>\<^verbatim>\<open>week_number in range(a, b)\<close> for an integer.\<close>

definition in_range :: "int \<Rightarrow> int \<times> int \<Rightarrow> bool" where
  "in_range n r = (fst r \<le> n \<and> n < snd r)"

text \<open>
  The loop over \<^verbatim>\<open>month_mapping.items()\<close>: the month of the first range that holds the
  week, and the \<^verbatim>\<open>return -1\<close> after the loop.
\<close>

fun lookup_month :: "((int \<times> int) \<times> int) list \<Rightarrow> int \<Rightarrow> int" where
  "lookup_month [] week_number = - 1"
| "lookup_month ((week_range, month) # rest) week_number =
     (if in_range week_number week_range then month else lookup_month rest week_number)"

definition get_month_for_week :: "int \<Rightarrow> int" where
  "get_month_for_week week_number =
     (if week_number \<in> CATCH_UP_WEEKS then - 1
      else lookup_month month_mapping week_number)"

definition is_catch_up_week :: "int \<Rightarrow> bool" where
  "is_catch_up_week week_number = (week_number \<in> CATCH_UP_WEEKS)"

definition abbreviations :: "string list" where
  "abbreviations =
     [''Jan'', ''Feb'', ''Mar'', ''Apr'', ''May'', ''Jun'',
      ''Jul'', ''Aug'', ''Sep'', ''Oct'', ''Nov'', ''Dec'']"

definition get_month_abbreviation :: "int \<Rightarrow> py_error + string" where
  "get_month_abbreviation month_number =
     (if 1 \<le> month_number \<and> month_number \<le> 12
      then py_index abbreviations (month_number - 1)
      else Inr '''')"

subsection \<open>The month partition of \<^verbatim>\<open>draw_monthly_column\<close>\<close>

text \<open>
  The local variables of the scan: \<^verbatim>\<open>current_month\<close>, \<^verbatim>\<open>month_week_count\<close> and the
  dictionary \<^verbatim>\<open>month_lines\<close> (month number to list of weeks, in insertion order).
\<close>

record month_scan =
  current_month :: int
  month_week_count :: int
  month_lines :: "(int \<times> int list) list"

definition month_lines_init :: "(int \<times> int list) list" where
  "month_lines_init =
     [(1, []), (2, []), (3, []), (4, []), (5, []), (6, []),
      (7, []), (8, []), (9, []), (10, []), (11, []), (12, [])]"

text \<open>
  \<^verbatim>\<open>month_lines[current_month].append(week)\<close>: the lookup raises \<^verbatim>\<open>KeyError\<close> for a
  month that is not a key of the dictionary.
\<close>

definition append_week :: "(int \<times> int list) list \<Rightarrow> int \<Rightarrow> int \<Rightarrow> py_error + (int \<times> int list) list" where
  "append_week ml month week =
     (case map_of ml month of
        None \<Rightarrow> Inl KeyError
      | Some weeks \<Rightarrow> Inr (AList.update month (weeks @ [week]) ml))"

text \<open>The body of the loop \<^verbatim>\<open>for week in range(1, WEEKS_IN_YEAR + 1)\<close>.\<close>

definition month_scan_step :: "month_scan \<Rightarrow> int \<Rightarrow> py_error + month_scan" where
  "month_scan_step s week =
     (if is_catch_up_week week then Inr s
      else
        let count = month_week_count s + 1;
            s1 = (if count > WEEKS_PER_MONTH
                  then s\<lparr>current_month := current_month s + 1, month_week_count := 1\<rparr>
                  else s\<lparr>month_week_count := count\<rparr>)
        in and_then (append_week (month_lines s1) (current_month s1) week)
             (\<lambda>ml. Inr (s1\<lparr>month_lines := ml\<rparr>)))"

fun month_scan_loop :: "int list \<Rightarrow> month_scan \<Rightarrow> py_error + month_scan" where
  "month_scan_loop [] s = Inr s"
| "month_scan_loop (week # weeks) s =
     and_then (month_scan_step s week) (month_scan_loop weeks)"

text \<open>The dictionary \<^verbatim>\<open>month_lines\<close> when the loop has ended.\<close>

definition build_month_lines :: "py_error + (int \<times> int list) list" where
  "build_month_lines =
     and_then
       (month_scan_loop [1..WEEKS_IN_YEAR]
          \<lparr> current_month = 1, month_week_count = 0, month_lines = month_lines_init \<rparr>)
       (\<lambda>s. Inr (month_lines s))"

subsection \<open>Dates of the standard library\<close>

text \<open>
  \<^verbatim>\<open>datetime.datetime\<close> and \<^verbatim>\<open>datetime.timedelta\<close> are not code of the repository.
  They are modelled after CPython's \<^verbatim>\<open>Lib/_pydatetime.py\<close>: a value holds year, month
  and day (every value built by \<^verbatim>\<open>draw_weekly_column\<close> is at midnight, so the time
  fields are left out), and arithmetic goes through the proleptic Gregorian ordinal,
  day 1 being 0001-01-01. A \<^verbatim>\<open>timedelta(days=k)\<close> is the integer \<open>k\<close>.
\<close>

record datetime =
  dt_year :: int
  dt_month :: int
  dt_day :: int

definition MINYEAR :: int where
  "MINYEAR = 1"

definition MAXYEAR :: int where
  "MAXYEAR = 9999"

definition MAXORDINAL :: int where
  "MAXORDINAL = 3652059"

definition DAYS_IN_MONTH :: "int list" where
  "DAYS_IN_MONTH = [- 1, 31, 28, 31, 30, 31, 30, 31, 31, 30, 31, 30, 31]"

definition DAYS_BEFORE_MONTH :: "int list" where
  "DAYS_BEFORE_MONTH = [- 1, 0, 31, 59, 90, 120, 151, 181, 212, 243, 273, 304, 334]"

definition is_leap :: "int \<Rightarrow> bool" where
  "is_leap y = (y mod 4 = 0 \<and> (y mod 100 \<noteq> 0 \<or> y mod 400 = 0))"

definition days_before_year :: "int \<Rightarrow> int" where
  "days_before_year yr = (let y = yr - 1 in y * 365 + y div 4 - y div 100 + y div 400)"

text \<open>
  The two tables are read at months 1 to 12 only: the constructor checks the month
  before it reads them, and \<open>ord2ymd\<close> reads them at \<open>(n + 50) div 32\<close> and at
  the month before, for a day offset \<open>n\<close> from 0 to 365.
\<close>

definition days_in_month :: "int \<Rightarrow> int \<Rightarrow> int" where
  "days_in_month y m = (if m = 2 \<and> is_leap y then 29 else DAYS_IN_MONTH ! nat m)"

definition days_before_month :: "int \<Rightarrow> int \<Rightarrow> int" where
  "days_before_month y m = DAYS_BEFORE_MONTH ! nat m + (if m > 2 \<and> is_leap y then 1 else 0)"

definition ymd2ord :: "int \<Rightarrow> int \<Rightarrow> int \<Rightarrow> int" where
  "ymd2ord y m d = days_before_year y + days_before_month y m + d"

definition DI400Y :: int where
  "DI400Y = 146097"

definition DI100Y :: int where
  "DI100Y = 36524"

definition DI4Y :: int where
  "DI4Y = 1461"

text \<open>
  The end of \<^verbatim>\<open>_ord2ymd\<close>: month and day from the number \<open>n\<close> of days since January 1.
  The month is estimated by \<^verbatim>\<open>(n + 50) >> 5\<close> and lowered by one when that is too far.
\<close>

definition month_and_day :: "bool \<Rightarrow> int \<Rightarrow> int \<times> int" where
  "month_and_day leapyear n =
     (let m = (n + 50) div 32;
          preceding = DAYS_BEFORE_MONTH ! nat m + (if m > 2 \<and> leapyear then 1 else 0)
      in if preceding > n
         then (m - 1,
               n - (preceding - (DAYS_IN_MONTH ! nat (m - 1)
                                   + (if m - 1 = 2 \<and> leapyear then 1 else 0))) + 1)
         else (m, n - preceding + 1))"

definition ord2ymd :: "int \<Rightarrow> int \<times> int \<times> int" where
  "ord2ymd ordinal =
     (let n = ordinal - 1;
          n400 = n div DI400Y; n = n mod DI400Y;
          n100 = n div DI100Y; n = n mod DI100Y;
          n4 = n div DI4Y; n = n mod DI4Y;
          n1 = n div 365; n = n mod 365;
          y = n400 * 400 + 1 + n100 * 100 + n4 * 4 + n1
      in if n1 = 4 \<or> n100 = 4 then (y - 1, 12, 31)
         else
           let leapyear = (n1 = 3 \<and> (n4 \<noteq> 24 \<or> n100 = 3));
               md = month_and_day leapyear n
           in (y, fst md, snd md))"

text \<open>\<^verbatim>\<open>datetime(year, month, day)\<close>, with the checks of \<^verbatim>\<open>_check_date_fields\<close>.\<close>

definition datetime_new :: "int \<Rightarrow> int \<Rightarrow> int \<Rightarrow> py_error + datetime" where
  "datetime_new y m d =
     (if \<not> (MINYEAR \<le> y \<and> y \<le> MAXYEAR) then Inl ValueError
      else if \<not> (1 \<le> m \<and> m \<le> 12) then Inl ValueError
      else if \<not> (1 \<le> d \<and> d \<le> days_in_month y m) then Inl ValueError
      else Inr \<lparr> dt_year = y, dt_month = m, dt_day = d \<rparr>)"

definition toordinal :: "datetime \<Rightarrow> int" where
  "toordinal t = ymd2ord (dt_year t) (dt_month t) (dt_day t)"

definition fromordinal :: "int \<Rightarrow> datetime" where
  "fromordinal n = (case ord2ymd n of (y, m, d) \<Rightarrow> \<lparr> dt_year = y, dt_month = m, dt_day = d \<rparr>)"

text \<open>\<^verbatim>\<open>weekday()\<close>: 0 is Monday, 6 is Sunday.\<close>

definition weekday :: "datetime \<Rightarrow> int" where
  "weekday t = (toordinal t + 6) mod 7"

text \<open>
  \<^verbatim>\<open>t + timedelta(days=k)\<close>; \<^verbatim>\<open>t - timedelta(days=k)\<close> is \<^verbatim>\<open>t + timedelta(days=-k)\<close>.
  A result outside 0001-01-01 .. 9999-12-31 raises \<^verbatim>\<open>OverflowError\<close>.
\<close>

definition datetime_add :: "datetime \<Rightarrow> int \<Rightarrow> py_error + datetime" where
  "datetime_add t k =
     (let days = toordinal t + k
      in if 0 < days \<and> days \<le> MAXORDINAL then Inr (fromordinal days) else Inl OverflowError)"

definition isoweek1monday :: "int \<Rightarrow> int" where
  "isoweek1monday y =
     (let firstday = ymd2ord y 1 1;
          firstweekday = (firstday + 6) mod 7;
          week1monday = firstday - firstweekday
      in if firstweekday > 3 then week1monday + 7 else week1monday)"

text \<open>\<^verbatim>\<open>isocalendar()\<close>: ISO year, ISO week number and ISO weekday.\<close>

definition isocalendar :: "datetime \<Rightarrow> int \<times> int \<times> int" where
  "isocalendar t =
     (let y = dt_year t;
          week1monday = isoweek1monday y;
          today = ymd2ord (dt_year t) (dt_month t) (dt_day t);
          week = (today - week1monday) div 7;
          d = (today - week1monday) mod 7
      in if week < 0 then
           (let y = y - 1;
                week1monday = isoweek1monday y;
                week = (today - week1monday) div 7;
                d = (today - week1monday) mod 7
            in (y, week + 1, d + 1))
         else if week \<ge> 52 \<and> today \<ge> isoweek1monday (y + 1) then (y + 1, 1, d + 1)
         else (y, week + 1, d + 1))"

text \<open>\<^verbatim>\<open>str(n)\<close> for an integer, as the f-string of the label formats a day.\<close>

fun str_nat :: "nat \<Rightarrow> string" where
  "str_nat n =
     (if n < 10 then [''0123456789'' ! n]
      else str_nat (n div 10) @ [''0123456789'' ! (n mod 10)])"

definition str_int :: "int \<Rightarrow> string" where
  "str_int i = (if i < 0 then ''-'' @ str_nat (nat (- i)) else str_nat (nat i))"

subsection \<open>The date labels of \<^verbatim>\<open>draw_weekly_column\<close>\<close>

text \<open>
  The body of the loop over \<^verbatim>\<open>row_index\<close>, as far as the dates go: Monday and Friday
  of the row and the text \<^verbatim>\<open>day_range\<close> that is drawn.
\<close>

definition week_row :: "datetime \<Rightarrow> int \<Rightarrow> int \<Rightarrow> py_error + (datetime \<times> datetime \<times> string)" where
  "week_row iso_week1_monday start_iso_week row_index =
     (let iso_week_num = start_iso_week + row_index - 1
      in and_then (datetime_add iso_week1_monday ((iso_week_num - 1) * 7)) (\<lambda>week_monday.
         and_then (datetime_add week_monday 4) (\<lambda>week_friday.
         Inr (week_monday, week_friday,
              str_int (dt_day week_monday) @ ''-'' @ str_int (dt_day week_friday)))))"

fun week_rows :: "datetime \<Rightarrow> int \<Rightarrow> int list \<Rightarrow> py_error + (datetime \<times> datetime \<times> string) list" where
  "week_rows iso_week1_monday start_iso_week [] = Inr []"
| "week_rows iso_week1_monday start_iso_week (row_index # rest) =
     and_then (week_row iso_week1_monday start_iso_week row_index) (\<lambda>r.
     and_then (week_rows iso_week1_monday start_iso_week rest) (\<lambda>rs. Inr (r # rs)))"

text \<open>
  The dates of \<^verbatim>\<open>draw_weekly_column\<close> for the year \<open>y\<close>: the rows 1 to 52 in order,
  or the first exception that a date raises. The column positions, the catch-up
  messages and the drawing calls on the canvas are left out.
\<close>

definition weekly_column_rows :: "int \<Rightarrow> py_error + (datetime \<times> datetime \<times> string) list" where
  "weekly_column_rows y =
     and_then (datetime_new y 1 4) (\<lambda>jan4.
       let days_since_monday = weekday jan4
       in and_then (datetime_add jan4 (- days_since_monday)) (\<lambda>iso_week1_monday.
          and_then (datetime_new y 12 28) (\<lambda>dec28.
            let has_iso_53 = (fst (snd (isocalendar dec28)) = 53);
                start_iso_week = (if has_iso_53 then 2 else 1)
            in week_rows iso_week1_monday start_iso_week [1..WEEKS_IN_YEAR])))"

text \<open>The page of the repository's test fixture: US Letter, half-inch margins, in points.\<close>

definition letter_page :: PageConfig where
  "letter_page = \<lparr> width = 612, height = 792, top_margin = 36, bottom_margin = 36,
                   left_margin = 36, right_margin = 36 \<rparr>"

text \<open>A page whose top and bottom margins add up to more than its height.\<close>

definition tall_margins_page :: PageConfig where
  "tall_margins_page = letter_page\<lparr> top_margin := 400, bottom_margin := 400 \<rparr>"

section \<open>Auxiliary facts\<close>

subsection \<open>Sequencing\<close>

lemma and_then_Inr [simp]: "and_then (Inr v) f = f v"
  by (simp add: and_then_def)

lemma and_then_Inl [simp]: "and_then (Inl e) f = Inl e"
  by (simp add: and_then_def)

subsection \<open>Row height and row position\<close>

lemma row_height_formula:
  "get_row_height (calculate_dimensions pc lc) =
     (height pc - top_margin pc - bottom_margin pc
        + min (0.1 * inch) (bottom_margin pc * 0.5) - 0.6 * inch) / 52"
  by (simp add: get_row_height_def calculate_dimensions_def WEEKS_IN_YEAR_def Let_def)

lemma week_y_formula:
  "get_week_y_position (calculate_dimensions pc lc) week =
     height pc - top_margin pc - 0.5 * inch
       - real_of_int (week - 1) * get_row_height (calculate_dimensions pc lc)"
  by (simp add: get_week_y_position_def get_header_height_def Let_def calculate_dimensions_def)

subsection \<open>The month table and the month partition, week by week\<close>

text \<open>
  The scan of \<^verbatim>\<open>draw_monthly_column\<close> is evaluated once; the 52 weeks are then checked
  one by one against \<^verbatim>\<open>get_month_for_week\<close>.
\<close>

lemma build_month_lines_value:
  "build_month_lines = Inr
     [(1, [1, 2, 3, 4]), (2, [5, 6, 7, 8]), (3, [9, 10, 11, 12]),
      (4, [14, 15, 16, 17]), (5, [18, 19, 20, 21]), (6, [22, 23, 24, 25]),
      (7, [27, 28, 29, 30]), (8, [31, 32, 33, 34]), (9, [35, 36, 37, 38]),
      (10, [40, 41, 42, 43]), (11, [44, 45, 46, 47]), (12, [48, 49, 50, 51])]"
  by code_simp

lemma month_table_exec:
  "list_all (\<lambda>w.
       list_all (\<lambda>(m, ws). length ws = 4 \<and> ((w \<in> set ws) = (get_month_for_week w = m)))
         [(1, [1, 2, 3, 4]), (2, [5, 6, 7, 8]), (3, [9, 10, 11, 12]),
          (4, [14, 15, 16, 17]), (5, [18, 19, 20, 21]), (6, [22, 23, 24, 25]),
          (7, [27, 28, 29, 30]), (8, [31, 32, 33, 34]), (9, [35, 36, 37, 38]),
          (10, [40, 41, 42, 43]), (11, [44, 45, 46, 47]), (12, [48, 49, 50, 51])]
     \<and> (is_catch_up_week w = list_all (\<lambda>(m, ws). w \<notin> set ws)
         [(1, [1, 2, 3, 4]), (2, [5, 6, 7, 8]), (3, [9, 10, 11, 12]),
          (4, [14, 15, 16, 17]), (5, [18, 19, 20, 21]), (6, [22, 23, 24, 25]),
          (7, [27, 28, 29, 30]), (8, [31, 32, 33, 34]), (9, [35, 36, 37, 38]),
          (10, [40, 41, 42, 43]), (11, [44, 45, 46, 47]), (12, [48, 49, 50, 51])]))
     [1..52]"
  by code_simp

lemma month_sentinel_exec:
  "list_all (\<lambda>w. ((get_month_for_week w = - 1) = (w \<in> {13, 26, 39, 52}))
      \<and> (w \<notin> {13, 26, 39, 52} \<longrightarrow> 1 \<le> get_month_for_week w \<and> get_month_for_week w \<le> 12))
     [1..52]"
  by code_simp

lemma quarter_bucket:
  fixes v k :: int
  shows "((v - 1) div 13 + 1 = k) = (13 * (k - 1) + 1 \<le> v \<and> v \<le> 13 * k)"
  by presburger

subsection \<open>From an ordinal to a date and back\<close>

text \<open>
  \<open>ord2ymd\<close> splits the days before the date into cycles of 400, 100, 4 and 1 years.
  With the numbers of cycles at hand, the days before the year and the leap year test
  are linear expressions, and the month is checked for each of the 365 offsets.
\<close>

lemma div_block: "0 \<le> r \<Longrightarrow> r < d \<Longrightarrow> (d * q + r) div d = (q::int)"
  by (simp add: div_pos_pos_trivial)

lemma mod_block: "0 \<le> r \<Longrightarrow> r < d \<Longrightarrow> (d * q + r) mod d = (r::int)"
  by simp

lemma mod_block_zero:
  assumes "1 \<le> t" "t \<le> d" "y = d * q + t"
  shows "(y mod d = 0) = (t = (d::int))"
proof (cases "t = d")
  case True
  with assms show ?thesis by simp
next
  case False
  with assms have "t mod d = t" by simp
  with assms False show ?thesis by simp
qed

lemma days_before_year_decomp:
  assumes "0 \<le> b" "b \<le> 3" "0 \<le> c" "c \<le> 24" "0 \<le> e" "e \<le> 3"
  shows "days_before_year (400 * a + 100 * b + 4 * c + e + 1)
           = 146097 * a + 36524 * b + 1461 * c + 365 * e"
proof -
  let ?y = "400 * a + 100 * b + 4 * c + e"
  have "?y = 4 * (100 * a + 25 * b + c) + e" by simp
  then have d4: "?y div 4 = 100 * a + 25 * b + c"
    using assms div_block [of e 4 "100 * a + 25 * b + c"] by simp
  have "?y = 100 * (4 * a + b) + (4 * c + e)" by simp
  then have d100: "?y div 100 = 4 * a + b"
    using assms div_block [of "4 * c + e" 100 "4 * a + b"] by simp
  have "?y = 400 * a + (100 * b + 4 * c + e)" by simp
  then have d400: "?y div 400 = a"
    using assms div_block [of "100 * b + 4 * c + e" 400 a] by simp
  show ?thesis
    using d4 d100 d400 by (simp add: days_before_year_def Let_def)
qed

lemma is_leap_decomp:
  assumes "0 \<le> b" "b \<le> 3" "0 \<le> c" "c \<le> 24" "0 \<le> e" "e \<le> 3"
  shows "is_leap (400 * a + 100 * b + 4 * c + e + 1) = (e = 3 \<and> (c \<noteq> 24 \<or> b = 3))"
proof -
  let ?y = "400 * a + 100 * b + 4 * c + e + 1"
  have m4: "(?y mod 4 = 0) = (e + 1 = 4)"
    by (rule mod_block_zero [where q = "100 * a + 25 * b + c"]) (use assms in simp_all)
  have m100: "(?y mod 100 = 0) = (4 * c + e + 1 = 100)"
    by (rule mod_block_zero [where q = "4 * a + b"]) (use assms in simp_all)
  have m400: "(?y mod 400 = 0) = (100 * b + 4 * c + e + 1 = 400)"
    by (rule mod_block_zero [where q = a]) (use assms in simp_all)
  show ?thesis
    unfolding is_leap_def m4 m100 m400 using assms by auto
qed

lemma month_and_day_exec:
  "list_all (\<lambda>n. list_all (\<lambda>lp. case month_and_day lp n of (m, d) \<Rightarrow>
      1 \<le> m \<and> m \<le> 12 \<and> 1 \<le> d
      \<and> DAYS_BEFORE_MONTH ! nat m + (if m > 2 \<and> lp then 1 else 0) + d = n + 1) [True, False]) [0..364]"
  by code_simp

lemma month_and_day_sound:
  assumes "0 \<le> n" "n \<le> 364"
  shows "case month_and_day lp n of (m, d) \<Rightarrow>
      1 \<le> m \<and> m \<le> 12 \<and> 1 \<le> d
      \<and> DAYS_BEFORE_MONTH ! nat m + (if m > 2 \<and> lp then 1 else 0) + d = n + 1"
proof -
  have n: "n \<in> set [0..364]" using assms by simp
  have lp: "lp \<in> set [True, False]" by (cases lp) simp_all
  show ?thesis
    by (rule month_and_day_exec [unfolded list_all_iff, rule_format, OF n lp])
qed

lemma ord2ymd_decomp:
  fixes n :: int
  assumes "1 \<le> n"
  obtains a b c e r where
    "n - 1 = 146097 * a + 36524 * b + 1461 * c + 365 * e + r"
    "0 \<le> b" "b \<le> 4" "0 \<le> c" "c \<le> 24" "0 \<le> e" "e \<le> 4" "0 \<le> r" "r \<le> 364"
    "b = 4 \<longrightarrow> c = 0 \<and> e = 0 \<and> r = 0"
    "e = 4 \<longrightarrow> r = 0 \<and> c \<le> 23"
    "ord2ymd n =
       (if e = 4 \<or> b = 4 then (400 * a + 100 * b + 4 * c + e, 12, 31)
        else (400 * a + 100 * b + 4 * c + e + 1,
              month_and_day (e = 3 \<and> (c \<noteq> 24 \<or> b = 3)) r))"
proof -
  define a where "a = (n - 1) div 146097"
  define r1 where "r1 = (n - 1) mod 146097"
  define b where "b = r1 div 36524"
  define r2 where "r2 = r1 mod 36524"
  define c where "c = r2 div 1461"
  define r3 where "r3 = r2 mod 1461"
  define e where "e = r3 div 365"
  define r where "r = r3 mod 365"
  have s1: "n - 1 = 146097 * a + r1" "0 \<le> r1" "r1 < 146097"
    by (simp_all add: a_def r1_def)
  have s2: "r1 = 36524 * b + r2" "0 \<le> r2" "r2 < 36524"
    by (simp_all add: b_def r2_def)
  have s3: "r2 = 1461 * c + r3" "0 \<le> r3" "r3 < 1461"
    by (simp_all add: c_def r3_def)
  have s4: "r3 = 365 * e + r" "0 \<le> r" "r < 365"
    by (simp_all add: e_def r_def)
  have b0: "0 \<le> b" using s2(1) s1(2) s2(3) by linarith
  have c0: "0 \<le> c" using s3(1) s2(2) s3(3) by linarith
  have e0: "0 \<le> e" using s4(1) s3(2) s4(3) by linarith
  have b4: "b \<le> 4" using s2 s1 by linarith
  have c24: "c \<le> 24" using s3 s2 by linarith
  have e4: "e \<le> 4" using s4 s3 by linarith
  have eq: "n - 1 = 146097 * a + 36524 * b + 1461 * c + 365 * e + r"
    using s1(1) s2(1) s3(1) s4(1) by linarith
  have bmax: "b = 4 \<longrightarrow> c = 0 \<and> e = 0 \<and> r = 0"
    using s1 s2 s3 s4 c0 e0 by auto
  have emax: "e = 4 \<longrightarrow> r = 0 \<and> c \<le> 23"
    using s2 s3 s4 by auto
  have o: "ord2ymd n =
       (if e = 4 \<or> b = 4 then (400 * a + 100 * b + 4 * c + e, 12, 31)
        else (400 * a + 100 * b + 4 * c + e + 1,
              month_and_day (e = 3 \<and> (c \<noteq> 24 \<or> b = 3)) r))"
    by (simp add: ord2ymd_def Let_def DI400Y_def DI100Y_def DI4Y_def
        a_def r1_def b_def r2_def c_def r3_def e_def r_def)
  show thesis
    using that [OF eq b0 b4 c0 c24 e0 e4 s4(2) _ bmax emax o] s4(3) by simp
qed

lemma ymd2ord_of_decomp:
  fixes n :: int
  assumes eq: "n - 1 = 146097 * a + 36524 * b + 1461 * c + 365 * e + r"
    and bd: "0 \<le> b" "b \<le> 4" "0 \<le> c" "c \<le> 24" "0 \<le> e" "e \<le> 4" "0 \<le> r" "r \<le> 364"
    and bmax: "b = 4 \<longrightarrow> c = 0 \<and> e = 0 \<and> r = 0"
    and emax: "e = 4 \<longrightarrow> r = 0 \<and> c \<le> 23"
    and o: "ord2ymd n =
       (if e = 4 \<or> b = 4 then (400 * a + 100 * b + 4 * c + e, 12, 31)
        else (400 * a + 100 * b + 4 * c + e + 1,
              month_and_day (e = 3 \<and> (c \<noteq> 24 \<or> b = 3)) r))"
  shows "(case ord2ymd n of (y, m, d) \<Rightarrow> ymd2ord y m d) = n"
proof -
  have dec31: "DAYS_BEFORE_MONTH ! nat 12 = 334"
    by (simp add: DAYS_BEFORE_MONTH_def)
  consider (last4) "e = 4" | (last400) "b = 4" | (inner) "e \<le> 3" "b \<le> 3"
    using bd by linarith
  then show ?thesis
  proof cases
    case last4
    then have b3: "b \<le> 3" and c23: "c \<le> 23" and r0: "r = 0"
      using bmax emax bd by auto
    let ?y = "400 * a + 100 * b + 4 * c + 3 + 1"
    have o': "ord2ymd n = (?y, 12, 31)"
      using last4 by (simp add: o)
    have dby: "days_before_year ?y = 146097 * a + 36524 * b + 1461 * c + 365 * 3"
      by (rule days_before_year_decomp) (use bd b3 in simp_all)
    have lp: "is_leap ?y"
      using is_leap_decomp [of b c 3 a] bd b3 c23 by simp
    have v: "ymd2ord ?y 12 31 = 146097 * a + 36524 * b + 1461 * c + 365 * 3 + 366"
      unfolding ymd2ord_def days_before_month_def dby dec31 using lp by simp
    have nn: "n = 146097 * a + 36524 * b + 1461 * c + 365 * 3 + 366"
      using eq last4 r0 by linarith
    show ?thesis
      unfolding o' prod.case using v nn by simp
  next
    case last400
    then have z: "c = 0" "e = 0" "r = 0" using bmax by auto
    let ?y = "400 * a + 100 * 3 + 4 * 24 + 3 + 1"
    have o': "ord2ymd n = (?y, 12, 31)"
      using last400 z by (simp add: o)
    have dby: "days_before_year ?y = 146097 * a + 36524 * 3 + 1461 * 24 + 365 * 3"
      by (rule days_before_year_decomp) simp_all
    have lp: "is_leap ?y"
      using is_leap_decomp [of 3 24 3 a] by simp
    have v: "ymd2ord ?y 12 31 = 146097 * a + 36524 * 3 + 1461 * 24 + 365 * 3 + 366"
      unfolding ymd2ord_def days_before_month_def dby dec31 using lp by simp
    have nn: "n = 146097 * a + 36524 * 3 + 1461 * 24 + 365 * 3 + 366"
      using eq last400 z by linarith
    show ?thesis
      unfolding o' prod.case using v nn by simp
  next
    case inner
    let ?lp = "e = 3 \<and> (c \<noteq> 24 \<or> b = 3)"
    let ?y = "400 * a + 100 * b + 4 * c + e + 1"
    obtain m d where md: "month_and_day ?lp r = (m, d)"
      by (cases "month_and_day ?lp r") auto
    have snd: "DAYS_BEFORE_MONTH ! nat m + (if m > 2 \<and> ?lp then 1 else 0) + d = r + 1"
      using month_and_day_sound [OF bd(7) bd(8), of ?lp] md by simp
    have dby: "days_before_year ?y = 146097 * a + 36524 * b + 1461 * c + 365 * e"
      by (rule days_before_year_decomp) (use bd inner in simp_all)
    have lp: "is_leap ?y = ?lp"
      by (rule is_leap_decomp) (use bd inner in simp_all)
    have o': "ord2ymd n = (?y, m, d)"
      using inner md by (simp add: o)
    have v: "ymd2ord ?y m d = days_before_year ?y + (r + 1)"
      unfolding ymd2ord_def days_before_month_def lp using snd by linarith
    have nn: "n = 146097 * a + 36524 * b + 1461 * c + 365 * e + (r + 1)"
      using eq by linarith
    show ?thesis
      unfolding o' prod.case v dby using nn by simp
  qed
qed

lemma ymd2ord_ord2ymd:
  assumes "1 \<le> n"
  shows "(case ord2ymd n of (y, m, d) \<Rightarrow> ymd2ord y m d) = n"
  by (rule ord2ymd_decomp [OF assms]) (rule ymd2ord_of_decomp)

lemma toordinal_fromordinal: "1 \<le> n \<Longrightarrow> toordinal (fromordinal n) = n"
  using ymd2ord_ord2ymd [of n]
  by (simp add: toordinal_def fromordinal_def split: prod.splits)

subsection \<open>Dates of one year\<close>

lemma days_before_year_nonneg:
  assumes "1 \<le> y"
  shows "0 \<le> days_before_year y"
proof -
  have "(y - 1) div 100 \<le> (y - 1) div 4"
    using assms by (intro zdiv_mono2) simp_all
  moreover have "0 \<le> (y - 1) div 400" using assms by simp
  moreover have "0 \<le> (y - 1) * 365" using assms by simp
  ultimately show ?thesis by (simp add: days_before_year_def Let_def)
qed

lemma days_before_year_upper:
  assumes "1 \<le> y" "y \<le> 9998"
  shows "days_before_year y \<le> 3651687"
proof -
  define z where "z = y - 1"
  define t where "t = z div 4"
  define u where "u = z div 100"
  define v where "v = z div 400"
  have z: "0 \<le> z" "z \<le> 9997" using assms by (simp_all add: z_def)
  have a: "4 * t \<le> z" by (simp add: t_def)
  have b: "z < 100 * u + 100"
    unfolding u_def
    using pos_mod_bound [of 100 z] mult_div_mod_eq [of 100 z] by linarith
  have c: "400 * v \<le> z" by (simp add: v_def)
  have "365 * z + t - u + v \<le> 3651687"
    using a b c z by linarith
  then show ?thesis
    by (simp add: days_before_year_def Let_def t_def u_def v_def z_def)
qed

lemma toordinal_jan4: "toordinal \<lparr> dt_year = y, dt_month = 1, dt_day = 4 \<rparr> = days_before_year y + 4"
  by (simp add: toordinal_def ymd2ord_def days_before_month_def DAYS_BEFORE_MONTH_def)

lemma datetime_new_jan4:
  "1 \<le> y \<Longrightarrow> y \<le> 9999 \<Longrightarrow> datetime_new y 1 4 = Inr \<lparr> dt_year = y, dt_month = 1, dt_day = 4 \<rparr>"
  by (simp add: datetime_new_def MINYEAR_def MAXYEAR_def days_in_month_def DAYS_IN_MONTH_def)

lemma datetime_new_dec28:
  "1 \<le> y \<Longrightarrow> y \<le> 9999 \<Longrightarrow> datetime_new y 12 28 = Inr \<lparr> dt_year = y, dt_month = 12, dt_day = 28 \<rparr>"
  by (simp add: datetime_new_def MINYEAR_def MAXYEAR_def days_in_month_def DAYS_IN_MONTH_def)

lemma datetime_add_ok:
  assumes "toordinal t = n" "1 \<le> n + k" "n + k \<le> 3652059"
  shows "datetime_add t k = Inr (fromordinal (n + k))"
    and "toordinal (fromordinal (n + k)) = n + k"
  using assms by (simp_all add: datetime_add_def Let_def MAXORDINAL_def toordinal_fromordinal)

lemma week_rows_map:
  assumes "\<And>i. i \<in> set rs \<Longrightarrow> week_row m0 s i = Inr (f i)"
  shows "week_rows m0 s rs = Inr (map f rs)"
  using assms by (induction rs) simp_all

lemma has_iso_53_9999:
  "fst (snd (isocalendar \<lparr> dt_year = 9999, dt_month = 12, dt_day = 28 \<rparr>)) \<noteq> 53"
  by code_simp

lemma days_before_year_9999: "days_before_year 9999 = 3651694"
  by (simp add: days_before_year_def)

lemma monday_of_week:
  fixes J :: int
  assumes "4 \<le> J"
  shows "1 \<le> J - (J + 6) mod 7" "J - (J + 6) mod 7 \<le> J" "J \<le> J - (J + 6) mod 7 + 6"
    "(J - (J + 6) mod 7 + 7 * k + 6) mod 7 = 0"
    "(J - (J + 6) mod 7 + 7 * k + 4 + 6) mod 7 = 4"
  using assms by presburger+

lemma row_in_range:
  assumes y: "1 \<le> y" "y \<le> 9999"
    and s: "s = (if fst (snd (isocalendar \<lparr> dt_year = y, dt_month = 12, dt_day = 28 \<rparr>)) = 53 then 2 else 1)"
    and row: "1 \<le> row" "row \<le> 52"
    and J: "J = days_before_year y + 4"
  shows "1 \<le> J - (J + 6) mod 7 + (s + row - 1 - 1) * 7"
    and "J - (J + 6) mod 7 + (s + row - 1 - 1) * 7 + 4 \<le> 3652059"
proof -
  have J4: "4 \<le> J" using days_before_year_nonneg [OF y(1)] J by simp
  have s12: "1 \<le> s" "s \<le> 2" using s by (simp_all split: if_splits)
  have k: "0 \<le> (s + row - 1 - 1) * 7" "(s + row - 1 - 1) * 7 \<le> 364"
    using s12 row by simp_all
  show "1 \<le> J - (J + 6) mod 7 + (s + row - 1 - 1) * 7"
    using monday_of_week(1) [OF J4] k(1) by linarith
  show "J - (J + 6) mod 7 + (s + row - 1 - 1) * 7 + 4 \<le> 3652059"
  proof (cases "y = 9999")
    case True
    then have "s = 1" using s has_iso_53_9999 by simp
    moreover have "J = 3651698" using J True days_before_year_9999 by simp
    ultimately show ?thesis using row by simp
  next
    case False
    then have "days_before_year y \<le> 3651687"
      using y by (intro days_before_year_upper) simp_all
    then show ?thesis
      using monday_of_week(2) [OF J4] J k(2) by linarith
  qed
qed

lemma weekly_column_rows_value:
  assumes y: "1 \<le> y" "y \<le> 9999"
  defines "jan4 \<equiv> \<lparr> dt_year = y, dt_month = 1, dt_day = 4 \<rparr>"
  defines "dec28 \<equiv> \<lparr> dt_year = y, dt_month = 12, dt_day = 28 \<rparr>"
  defines "M0 \<equiv> toordinal jan4 - weekday jan4"
  defines "s \<equiv> (if fst (snd (isocalendar dec28)) = 53 then 2 else 1)"
  shows "toordinal (fromordinal M0) = M0"
    and "datetime_add jan4 (- weekday jan4) = Inr (fromordinal M0)"
    and "1 \<le> row \<Longrightarrow> row \<le> 52 \<Longrightarrow>
           datetime_add (fromordinal M0) ((s + row - 1 - 1) * 7)
             = Inr (fromordinal (M0 + (s + row - 1 - 1) * 7))
         \<and> toordinal (fromordinal (M0 + (s + row - 1 - 1) * 7)) = M0 + (s + row - 1 - 1) * 7
         \<and> datetime_add (fromordinal (M0 + (s + row - 1 - 1) * 7)) 4
             = Inr (fromordinal (M0 + (s + row - 1 - 1) * 7 + 4))
         \<and> toordinal (fromordinal (M0 + (s + row - 1 - 1) * 7 + 4))
             = M0 + (s + row - 1 - 1) * 7 + 4"
    and "weekly_column_rows y =
           Inr (map (\<lambda>row. (fromordinal (M0 + (s + row - 1 - 1) * 7),
                        fromordinal (M0 + (s + row - 1 - 1) * 7 + 4),
                        str_int (dt_day (fromordinal (M0 + (s + row - 1 - 1) * 7))) @ ''-'' @
                        str_int (dt_day (fromordinal (M0 + (s + row - 1 - 1) * 7 + 4)))))
                  [1..52])"
proof -
  define J where "J = days_before_year y + 4"
  have J: "toordinal jan4 = J" by (simp add: jan4_def J_def toordinal_jan4)
  have J4: "4 \<le> J" using days_before_year_nonneg [OF y(1)] J_def by simp
  have M0: "M0 = J - (J + 6) mod 7" by (simp add: M0_def weekday_def J)
  have s: "s = (if fst (snd (isocalendar \<lparr> dt_year = y, dt_month = 12, dt_day = 28 \<rparr>)) = 53 then 2 else 1)"
    by (simp add: s_def dec28_def)
  have M0_lo: "1 \<le> M0" using monday_of_week(1) [OF J4] M0 by simp
  show rt: "toordinal (fromordinal M0) = M0"
    by (rule toordinal_fromordinal [OF M0_lo])
  have M0_hi: "M0 \<le> 3652059"
    using row_in_range(2) [OF y s _ _ J_def, of 1] M0 s by (simp split: if_splits)
  show add0: "datetime_add jan4 (- weekday jan4) = Inr (fromordinal M0)"
    using datetime_add_ok(1) [OF J, of "- weekday jan4"] M0_lo M0_hi
    by (simp add: M0_def J)
  have rows: "datetime_add (fromordinal M0) ((s + row - 1 - 1) * 7)
             = Inr (fromordinal (M0 + (s + row - 1 - 1) * 7))
         \<and> toordinal (fromordinal (M0 + (s + row - 1 - 1) * 7)) = M0 + (s + row - 1 - 1) * 7
         \<and> datetime_add (fromordinal (M0 + (s + row - 1 - 1) * 7)) 4
             = Inr (fromordinal (M0 + (s + row - 1 - 1) * 7 + 4))
         \<and> toordinal (fromordinal (M0 + (s + row - 1 - 1) * 7 + 4))
             = M0 + (s + row - 1 - 1) * 7 + 4"
    if row: "1 \<le> row" "row \<le> 52" for row
  proof -
    let ?M = "M0 + (s + row - 1 - 1) * 7"
    have lo: "1 \<le> ?M" and hi: "?M + 4 \<le> 3652059"
      using row_in_range [OF y s row J_def] M0 by simp_all
    have hi1: "?M \<le> 3652059" and lo4: "1 \<le> ?M + 4" using lo hi by linarith+
    note a1 = datetime_add_ok [OF rt lo hi1]
    note a2 = datetime_add_ok [OF a1(2) lo4 hi]
    show ?thesis
      using a1 a2 by blast
  qed
  then show "1 \<le> row \<Longrightarrow> row \<le> 52 \<Longrightarrow>
           datetime_add (fromordinal M0) ((s + row - 1 - 1) * 7)
             = Inr (fromordinal (M0 + (s + row - 1 - 1) * 7))
         \<and> toordinal (fromordinal (M0 + (s + row - 1 - 1) * 7)) = M0 + (s + row - 1 - 1) * 7
         \<and> datetime_add (fromordinal (M0 + (s + row - 1 - 1) * 7)) 4
             = Inr (fromordinal (M0 + (s + row - 1 - 1) * 7 + 4))
         \<and> toordinal (fromordinal (M0 + (s + row - 1 - 1) * 7 + 4))
             = M0 + (s + row - 1 - 1) * 7 + 4"
    by blast
  have wr: "week_row (fromordinal M0) s row =
      Inr (fromordinal (M0 + (s + row - 1 - 1) * 7),
           fromordinal (M0 + (s + row - 1 - 1) * 7 + 4),
           str_int (dt_day (fromordinal (M0 + (s + row - 1 - 1) * 7))) @ ''-'' @
           str_int (dt_day (fromordinal (M0 + (s + row - 1 - 1) * 7 + 4))))"
    if row: "1 \<le> row" "row \<le> 52" for row
  proof -
    from rows [OF row]
    have a: "datetime_add (fromordinal M0) ((s + row - 1 - 1) * 7)
               = Inr (fromordinal (M0 + (s + row - 1 - 1) * 7))"
      and b: "datetime_add (fromordinal (M0 + (s + row - 1 - 1) * 7)) 4
               = Inr (fromordinal (M0 + (s + row - 1 - 1) * 7 + 4))"
      by blast+
    show ?thesis
      unfolding week_row_def Let_def a and_then_Inr b by (rule refl)
  qed
  have "week_rows (fromordinal M0) s [1..52] =
           Inr (map (\<lambda>row. (fromordinal (M0 + (s + row - 1 - 1) * 7),
                        fromordinal (M0 + (s + row - 1 - 1) * 7 + 4),
                        str_int (dt_day (fromordinal (M0 + (s + row - 1 - 1) * 7))) @ ''-'' @
                        str_int (dt_day (fromordinal (M0 + (s + row - 1 - 1) * 7 + 4)))))
                  [1..52])"
    by (rule week_rows_map) (simp add: wr)
  then show "weekly_column_rows y =
           Inr (map (\<lambda>row. (fromordinal (M0 + (s + row - 1 - 1) * 7),
                        fromordinal (M0 + (s + row - 1 - 1) * 7 + 4),
                        str_int (dt_day (fromordinal (M0 + (s + row - 1 - 1) * 7))) @ ''-'' @
                        str_int (dt_day (fromordinal (M0 + (s + row - 1 - 1) * 7 + 4)))))
                  [1..52])"
    using add0 datetime_new_jan4 [OF y] datetime_new_dec28 [OF y]
    by (simp add: weekly_column_rows_def Let_def WEEKS_IN_YEAR_def jan4_def dec28_def s_def)
qed

lemma py_index_map_upto:
  assumes "1 \<le> row" "row \<le> 52"
  shows "py_index (map f [1..52]) (row - 1) = Inr (f row)"
proof -
  have "[1..52] ! nat (row - 1) = 1 + int (nat (row - 1))"
    by (rule nth_upto) (use assms in simp)
  then show ?thesis
    using assms by (simp add: py_index_def Let_def)
qed

lemma year_2020_values:
  "fst (snd (isocalendar \<lparr> dt_year = 2020, dt_month = 12, dt_day = 28 \<rparr>)) = 53"
  "toordinal \<lparr> dt_year = 2020, dt_month = 1, dt_day = 4 \<rparr>
     - weekday \<lparr> dt_year = 2020, dt_month = 1, dt_day = 4 \<rparr> = 737423"
  "fromordinal 737430 = \<lparr> dt_year = 2020, dt_month = 1, dt_day = 6 \<rparr>"
  "fromordinal 737434 = \<lparr> dt_year = 2020, dt_month = 1, dt_day = 10 \<rparr>"
  "str_int 6 = ''6''" "str_int 10 = ''10''"
  by code_simp+

lemma weekly_column_rows_2020:
  "and_then (weekly_column_rows 2020) (\<lambda>rows. py_index rows 0) =
     Inr (\<lparr> dt_year = 2020, dt_month = 1, dt_day = 6 \<rparr>,
          \<lparr> dt_year = 2020, dt_month = 1, dt_day = 10 \<rparr>, ''6-10'')"
proof -
  have "py_index (map f [1..52]) (1 - 1) = Inr (f 1)" for f :: "int \<Rightarrow> datetime \<times> datetime \<times> string"
    by (rule py_index_map_upto) simp_all
  then show ?thesis
    by (simp add: weekly_column_rows_value(4) [of 2020] year_2020_values)
qed

lemma weekly_column_rows_year_out_of_range:
  "y < 1 \<or> 9999 < y \<Longrightarrow> weekly_column_rows y = Inl ValueError"
  by (auto simp add: weekly_column_rows_def datetime_new_def MINYEAR_def MAXYEAR_def)

subsection \<open>The ISO calendar\<close>

text \<open>
  A year has 365 or 366 days, so the Monday of ISO week 1 moves by 364 or 371 days from
  one year to the next. An ordinal from the Monday of ISO week 1 of year \<open>y\<close> up to the
  day before that of year \<open>y + 1\<close> is in calendar year \<open>y - 1\<close>, \<open>y\<close> or \<open>y + 1\<close>, and
  \<open>isocalendar\<close> gives it the ISO year \<open>y\<close> in each of the three cases.
\<close>

lemma div_pred:
  fixes y d :: int
  assumes "0 < d"
  shows "y div d = (y - 1) div d + (if y mod d = 0 then 1 else 0)"
proof (cases "y mod d = 0")
  case True
  have "y - 1 = d * (y div d - 1) + (d - 1)"
    using True mult_div_mod_eq [of d y] by (simp add: algebra_simps)
  moreover have "(d * (y div d - 1) + (d - 1)) div d = y div d - 1"
    by (rule div_block) (use assms in simp_all)
  ultimately have "(y - 1) div d = y div d - 1" by (simp only:)
  with True show ?thesis by simp
next
  case False
  have r: "0 \<le> y mod d" "y mod d < d" using assms by simp_all
  have "y - 1 = d * (y div d) + (y mod d - 1)"
    using mult_div_mod_eq [of d y] by simp
  moreover have "(d * (y div d) + (y mod d - 1)) div d = y div d"
    by (rule div_block) (use r False in simp_all)
  ultimately have "(y - 1) div d = y div d" by (simp only:)
  with False show ?thesis by simp
qed

lemma mod_multiple:
  fixes y :: int
  shows "y mod 400 = 0 \<Longrightarrow> y mod 100 = 0" "y mod 100 = 0 \<Longrightarrow> y mod 4 = 0"
proof -
  have "(100::int) dvd 400" "(4::int) dvd 100" by simp_all
  then show "y mod 400 = 0 \<Longrightarrow> y mod 100 = 0" "y mod 100 = 0 \<Longrightarrow> y mod 4 = 0"
    by (meson dvd_trans mod_eq_0_iff_dvd)+
qed

lemma days_before_year_succ:
  "days_before_year (y + 1) = days_before_year y + 365 + (if is_leap y then 1 else 0)"
proof -
  define A where "A = (y - 1) div 4"
  define B where "B = (y - 1) div 100"
  define C where "C = (y - 1) div 400"
  define A' where "A' = y div 4"
  define B' where "B' = y div 100"
  define C' where "C' = y div 400"
  have d4: "A' = A + (if y mod 4 = 0 then 1 else 0)"
    unfolding A_def A'_def by (rule div_pred) simp
  have d100: "B' = B + (if y mod 100 = 0 then 1 else 0)"
    unfolding B_def B'_def by (rule div_pred) simp
  have d400: "C' = C + (if y mod 400 = 0 then 1 else 0)"
    unfolding C_def C'_def by (rule div_pred) simp
  have e1: "days_before_year (y + 1) = y * 365 + A' - B' + C'"
    by (simp add: days_before_year_def A'_def B'_def C'_def)
  have e2: "days_before_year y = (y - 1) * 365 + A - B + C"
    by (simp add: days_before_year_def Let_def A_def B_def C_def)
  define i4 :: int where "i4 = (if y mod 4 = 0 then 1 else 0)"
  define i100 :: int where "i100 = (if y mod 100 = 0 then 1 else 0)"
  define i400 :: int where "i400 = (if y mod 400 = 0 then 1 else 0)"
  have lp: "(if is_leap y then 1 else 0) = i4 - i100 + i400"
    using mod_multiple [of y] unfolding is_leap_def i4_def i100_def i400_def
    by (cases "y mod 4 = 0"; cases "y mod 100 = 0"; cases "y mod 400 = 0") simp_all
  have "A' = A + i4" "B' = B + i100" "C' = C + i400"
    using d4 d100 d400 by (simp_all only: i4_def i100_def i400_def)
  then have "y * 365 + A' - B' + C' = (y - 1) * 365 + A - B + C + 365 + (i4 - i100 + i400)"
    by (simp add: algebra_simps)
  then show ?thesis unfolding e1 e2 lp .
qed

lemma days_before_year_less:
  assumes "y < z"
  shows "days_before_year y < days_before_year z"
proof -
  define a where "a = y - 1"
  define b where "b = z - 1"
  define p where "p = a div 4"
  define q where "q = b div 4"
  define r where "r = a div 100"
  define s where "s = b div 100"
  define t where "t = a div 400"
  define u where "u = b div 400"
  have ab: "a < b" using assms by (simp add: a_def b_def)
  have q4: "p \<le> q" unfolding p_def q_def using ab by (intro zdiv_mono1) simp_all
  have q400: "t \<le> u" unfolding t_def u_def using ab by (intro zdiv_mono1) simp_all
  have u1: "100 * s \<le> b" unfolding s_def by simp
  have u2: "a < 100 * r + 100"
    unfolding r_def using pos_mod_bound [of 100 a] mult_div_mod_eq [of 100 a] by linarith
  have "365 * a + p - r + t < 365 * b + q - s + u"
    using ab q4 q400 u1 u2 by linarith
  then show ?thesis
    by (simp add: days_before_year_def Let_def a_def b_def p_def q_def r_def s_def t_def u_def)
qed

lemma year_bounds_of_decomp:
  fixes n :: int
  assumes eq: "n - 1 = 146097 * a + 36524 * b + 1461 * c + 365 * e + r"
    and bd: "0 \<le> b" "b \<le> 4" "0 \<le> c" "c \<le> 24" "0 \<le> e" "e \<le> 4" "0 \<le> r" "r \<le> 364"
    and bmax: "b = 4 \<longrightarrow> c = 0 \<and> e = 0 \<and> r = 0"
    and emax: "e = 4 \<longrightarrow> r = 0 \<and> c \<le> 23"
    and o: "ord2ymd n =
       (if e = 4 \<or> b = 4 then (400 * a + 100 * b + 4 * c + e, 12, 31)
        else (400 * a + 100 * b + 4 * c + e + 1,
              month_and_day (e = 3 \<and> (c \<noteq> 24 \<or> b = 3)) r))"
  shows "days_before_year (fst (ord2ymd n)) < n \<and> n \<le> days_before_year (fst (ord2ymd n) + 1)"
proof -
  consider (last4) "e = 4" | (last400) "b = 4" | (inner) "e \<le> 3" "b \<le> 3"
    using bd by linarith
  then show ?thesis
  proof cases
    case last4
    then have b3: "b \<le> 3" and c23: "c \<le> 23" and r0: "r = 0"
      using bmax emax bd by auto
    let ?y = "400 * a + 100 * b + 4 * c + 3 + 1"
    have o': "fst (ord2ymd n) = ?y"
      using last4 by (simp add: o)
    have dby: "days_before_year ?y = 146097 * a + 36524 * b + 1461 * c + 365 * 3"
      by (rule days_before_year_decomp) (use bd b3 in simp_all)
    have lp: "is_leap ?y"
      using is_leap_decomp [of b c 3 a] bd b3 c23 by simp
    have nn: "n = days_before_year ?y + 366"
      unfolding dby using eq last4 r0 by linarith
    show ?thesis
      unfolding o' days_before_year_succ [of ?y] using nn lp by simp
  next
    case last400
    then have z: "c = 0" "e = 0" "r = 0" using bmax by auto
    let ?y = "400 * a + 100 * 3 + 4 * 24 + 3 + 1"
    have o': "fst (ord2ymd n) = ?y"
      using last400 z by (simp add: o)
    have dby: "days_before_year ?y = 146097 * a + 36524 * 3 + 1461 * 24 + 365 * 3"
      by (rule days_before_year_decomp) simp_all
    have lp: "is_leap ?y"
      using is_leap_decomp [of 3 24 3 a] by simp
    have nn: "n = days_before_year ?y + 366"
      unfolding dby using eq last400 z by linarith
    show ?thesis
      unfolding o' days_before_year_succ [of ?y] using nn lp by simp
  next
    case inner
    let ?y = "400 * a + 100 * b + 4 * c + e + 1"
    have o': "fst (ord2ymd n) = ?y"
      using inner by (simp add: o)
    have dby: "days_before_year ?y = 146097 * a + 36524 * b + 1461 * c + 365 * e"
      by (rule days_before_year_decomp) (use bd inner in simp_all)
    have nn: "n = days_before_year ?y + (r + 1)"
      unfolding dby using eq by linarith
    show ?thesis
      unfolding o' days_before_year_succ [of ?y] using nn bd(7) bd(8) by simp
  qed
qed

lemma ord2ymd_year_bounds:
  assumes "1 \<le> n"
  shows "days_before_year (fst (ord2ymd n)) < n \<and> n \<le> days_before_year (fst (ord2ymd n) + 1)"
  by (rule ord2ymd_decomp [OF assms]) (rule year_bounds_of_decomp)

lemma dt_year_fromordinal: "dt_year (fromordinal n) = fst (ord2ymd n)"
  by (simp add: fromordinal_def split: prod.splits)

lemma year_of_ordinal:
  assumes "1 \<le> n" "days_before_year y < n" "n \<le> days_before_year (y + 1)"
  shows "dt_year (fromordinal n) = y"
proof -
  let ?Y = "dt_year (fromordinal n)"
  have b: "days_before_year ?Y < n" "n \<le> days_before_year (?Y + 1)"
    using ord2ymd_year_bounds [OF assms(1)] by (simp_all add: dt_year_fromordinal)
  have "\<not> ?Y < y"
  proof
    assume "?Y < y"
    then have "?Y + 1 = y \<or> ?Y + 1 < y" by linarith
    then have "days_before_year (?Y + 1) \<le> days_before_year y"
      using days_before_year_less [of "?Y + 1" y] by auto
    with b(2) assms(2) show False by linarith
  qed
  moreover have "\<not> y < ?Y"
  proof
    assume "y < ?Y"
    then have "y + 1 = ?Y \<or> y + 1 < ?Y" by linarith
    then have "days_before_year (y + 1) \<le> days_before_year ?Y"
      using days_before_year_less [of "y + 1" ?Y] by auto
    with b(1) assms(3) show False by linarith
  qed
  ultimately show ?thesis by linarith
qed

lemma shift_mod7:
  fixes D :: int
  shows "(D + k) mod 7 = (D mod 7 + k) mod 7"
  by (simp add: mod_add_left_eq)

lemma mod7_cases:
  fixes D :: int
  obtains "D mod 7 = 0" | "D mod 7 = 1" | "D mod 7 = 2" | "D mod 7 = 3"
    | "D mod 7 = 4" | "D mod 7 = 5" | "D mod 7 = 6"
proof -
  have "0 \<le> D mod 7" "D mod 7 < 7" by simp_all
  then have "D mod 7 = 0 \<or> D mod 7 = 1 \<or> D mod 7 = 2 \<or> D mod 7 = 3
     \<or> D mod 7 = 4 \<or> D mod 7 = 5 \<or> D mod 7 = 6" by linarith
  then show thesis using that by (elim disjE) auto
qed

lemma week1_arith:
  fixes D :: int
  shows "(if 3 < (D + 1 + 6) mod 7 then D + 1 - (D + 1 + 6) mod 7 + 7
          else D + 1 - (D + 1 + 6) mod 7) = D + 4 - (D + 3) mod 7"
proof -
  have a: "(D + 1 + 6) mod 7 = D mod 7" by simp
  have b: "(D + 3) mod 7 = (D mod 7 + 3) mod 7" by (rule shift_mod7)
  show ?thesis
    unfolding a b by (cases D rule: mod7_cases) simp_all
qed

lemma week1_step:
  fixes D :: int
  shows "D + 365 + 4 - (D + 365 + 3) mod 7 = D + 4 - (D + 3) mod 7 + 364
        \<or> D + 365 + 4 - (D + 365 + 3) mod 7 = D + 4 - (D + 3) mod 7 + 371"
    and "D + 365 + 1 + 4 - (D + 365 + 1 + 3) mod 7 = D + 4 - (D + 3) mod 7 + 364
        \<or> D + 365 + 1 + 4 - (D + 365 + 1 + 3) mod 7 = D + 4 - (D + 3) mod 7 + 371"
proof -
  have a: "(D + 365 + 3) mod 7 = (D mod 7 + 368) mod 7"
    using shift_mod7 [of D 368] by (simp add: algebra_simps)
  have b: "(D + 365 + 1 + 3) mod 7 = (D mod 7 + 369) mod 7"
    using shift_mod7 [of D 369] by (simp add: algebra_simps)
  have c: "(D + 3) mod 7 = (D mod 7 + 3) mod 7" by (rule shift_mod7)
  show "D + 365 + 4 - (D + 365 + 3) mod 7 = D + 4 - (D + 3) mod 7 + 364
        \<or> D + 365 + 4 - (D + 365 + 3) mod 7 = D + 4 - (D + 3) mod 7 + 371"
    unfolding a c by (cases D rule: mod7_cases) simp_all
  show "D + 365 + 1 + 4 - (D + 365 + 1 + 3) mod 7 = D + 4 - (D + 3) mod 7 + 364
        \<or> D + 365 + 1 + 4 - (D + 365 + 1 + 3) mod 7 = D + 4 - (D + 3) mod 7 + 371"
    unfolding b c by (cases D rule: mod7_cases) simp_all
qed

lemma isoweek1monday_eq:
  "isoweek1monday y = days_before_year y + 4 - (days_before_year y + 3) mod 7"
proof -
  have f: "ymd2ord y 1 1 = days_before_year y + 1"
    by (simp add: ymd2ord_def days_before_month_def DAYS_BEFORE_MONTH_def)
  show ?thesis
    unfolding isoweek1monday_def Let_def f by (rule week1_arith)
qed

lemma isoweek1monday_bounds:
  "days_before_year y - 2 \<le> isoweek1monday y" "isoweek1monday y \<le> days_before_year y + 4"
proof -
  have "0 \<le> (days_before_year y + 3) mod 7" "(days_before_year y + 3) mod 7 < 7" by simp_all
  then show "days_before_year y - 2 \<le> isoweek1monday y" "isoweek1monday y \<le> days_before_year y + 4"
    unfolding isoweek1monday_eq by linarith+
qed

lemma isoweek1monday_succ:
  "isoweek1monday (y + 1) = isoweek1monday y + 364 \<or> isoweek1monday (y + 1) = isoweek1monday y + 371"
proof (cases "is_leap y")
  case True
  then have "days_before_year (y + 1) = days_before_year y + 365 + 1"
    by (simp add: days_before_year_succ)
  then show ?thesis
    unfolding isoweek1monday_eq by (simp only: week1_step(2))
next
  case False
  then have "days_before_year (y + 1) = days_before_year y + 365"
    by (simp add: days_before_year_succ)
  then show ?thesis
    unfolding isoweek1monday_eq by (simp only: week1_step(1))
qed

lemma isocalendar_unfold:
  "isocalendar t =
     (if (toordinal t - isoweek1monday (dt_year t)) div 7 < 0
      then (dt_year t - 1,
            (toordinal t - isoweek1monday (dt_year t - 1)) div 7 + 1,
            (toordinal t - isoweek1monday (dt_year t - 1)) mod 7 + 1)
      else if 52 \<le> (toordinal t - isoweek1monday (dt_year t)) div 7
              \<and> isoweek1monday (dt_year t + 1) \<le> toordinal t
      then (dt_year t + 1, 1, (toordinal t - isoweek1monday (dt_year t)) mod 7 + 1)
      else (dt_year t,
            (toordinal t - isoweek1monday (dt_year t)) div 7 + 1,
            (toordinal t - isoweek1monday (dt_year t)) mod 7 + 1))"
  by (simp add: isocalendar_def Let_def toordinal_def)

lemma isocalendar_fromordinal:
  assumes n1: "1 \<le> n"
    and lo: "isoweek1monday y \<le> n"
    and hi: "n < isoweek1monday (y + 1)"
  shows "isocalendar (fromordinal n) =
           (y, (n - isoweek1monday y) div 7 + 1, (n - isoweek1monday y) mod 7 + 1)"
proof -
  define t where "t = fromordinal n"
  have today: "toordinal t = n"
    unfolding t_def by (rule toordinal_fromordinal [OF n1])
  have s0: "days_before_year y = days_before_year (y - 1) + 365 + (if is_leap (y - 1) then 1 else 0)"
    using days_before_year_succ [of "y - 1"] by simp
  have s2: "days_before_year (y + 1 + 1) =
      days_before_year (y + 1) + 365 + (if is_leap (y + 1) then 1 else 0)"
    by (rule days_before_year_succ)
  note w = isoweek1monday_bounds [of y]
  note w' = isoweek1monday_bounds [of "y + 1"]
  consider (before) "n \<le> days_before_year y"
    | (within) "days_before_year y < n" "n \<le> days_before_year (y + 1)"
    | (after) "days_before_year (y + 1) < n"
    by linarith
  then have "isocalendar t =
           (y, (n - isoweek1monday y) div 7 + 1, (n - isoweek1monday y) mod 7 + 1)"
  proof cases
    case before
    have "days_before_year (y - 1) < n"
      using lo w(1) s0 by (simp split: if_splits)
    moreover have "n \<le> days_before_year (y - 1 + 1)" using before by simp
    ultimately have yr: "dt_year t = y - 1"
      unfolding t_def by (intro year_of_ordinal [OF n1])
    have st: "isoweek1monday y = isoweek1monday (y - 1) + 364
        \<or> isoweek1monday y = isoweek1monday (y - 1) + 371"
      using isoweek1monday_succ [of "y - 1"] by simp
    define k where "k = n - isoweek1monday y"
    have k: "0 \<le> k" "k \<le> 2" using lo before w(1) by (simp_all add: k_def)
    have kd: "k div 7 = 0" "k mod 7 = k" using k by simp_all
    have blk: "52 \<le> (7 * q + k) div 7 \<and> (7 * q + k) mod 7 = k" if "52 \<le> q" for q
      using div_block [of k 7 q] mod_block [of k 7 q] k that by simp
    from st have old: "(n - isoweek1monday (y - 1)) div 7 \<ge> 52
        \<and> (n - isoweek1monday (y - 1)) mod 7 = k"
    proof
      assume "isoweek1monday y = isoweek1monday (y - 1) + 364"
      then have "n - isoweek1monday (y - 1) = 7 * 52 + k" by (simp add: k_def)
      then show ?thesis using blk [of 52] by (simp only:)
    next
      assume "isoweek1monday y = isoweek1monday (y - 1) + 371"
      then have "n - isoweek1monday (y - 1) = 7 * 53 + k" by (simp add: k_def)
      then show ?thesis using blk [of 53] by (simp only:)
    qed
    show ?thesis
      unfolding isocalendar_unfold today yr using old lo kd
      by (simp add: k_def)
  next
    case within
    have yr: "dt_year t = y"
      unfolding t_def using within by (intro year_of_ordinal [OF n1])
    have "0 \<le> (n - isoweek1monday y) div 7"
      using lo by (simp add: pos_imp_zdiv_nonneg_iff)
    then show ?thesis
      unfolding isocalendar_unfold today yr using hi by simp
  next
    case after
    have "n \<le> days_before_year (y + 1 + 1)"
      using hi w'(2) s2 by (simp split: if_splits)
    then have yr: "dt_year t = y + 1"
      unfolding t_def using after by (intro year_of_ordinal [OF n1])
    have "(n - isoweek1monday (y + 1)) div 7 < 0"
      using hi by (simp add: div_neg_pos_less0)
    then show ?thesis
      unfolding isocalendar_unfold today yr by simp
  qed
  then show ?thesis by (simp add: t_def)
qed

lemma toordinal_dec28:
  "toordinal \<lparr> dt_year = y, dt_month = 12, dt_day = 28 \<rparr> = days_before_year (y + 1) - 3"
  by (simp add: toordinal_def ymd2ord_def days_before_month_def DAYS_BEFORE_MONTH_def
      days_before_year_succ)

lemma has_iso_53_next_year:
  assumes "fst (snd (isocalendar \<lparr> dt_year = y, dt_month = 12, dt_day = 28 \<rparr>)) = 53"
  shows "isoweek1monday (y + 1) = isoweek1monday y + 371"
proof -
  let ?t = "\<lparr> dt_year = y, dt_month = 12, dt_day = 28 \<rparr>"
  define k where "k = toordinal ?t - isoweek1monday y"
  have d: "toordinal ?t = days_before_year (y + 1) - 3" by (rule toordinal_dec28)
  have s: "days_before_year (y + 1) = days_before_year y + 365 + (if is_leap y then 1 else 0)"
    by (rule days_before_year_succ)
  note w = isoweek1monday_bounds [of y]
  note w' = isoweek1monday_bounds [of "y + 1"]
  have before: "\<not> isoweek1monday (y + 1) \<le> toordinal ?t"
    using w'(1) d by simp
  have k0: "0 \<le> k" using w(2) d s by (simp add: k_def split: if_splits)
  then have nonneg: "\<not> k div 7 < 0"
    by (simp add: pos_imp_zdiv_nonneg_iff)
  have "fst (snd (isocalendar ?t)) = k div 7 + 1"
    unfolding isocalendar_unfold using before nonneg by (simp add: k_def)
  with assms have "k div 7 = 52" by simp
  then have "364 \<le> k" by presburger
  then have "isoweek1monday y + 364 \<le> toordinal ?t" by (simp add: k_def)
  with before isoweek1monday_succ [of y] show ?thesis by linarith
qed

lemma week_start_arith:
  fixes D :: int
  shows "(10 + D) mod 7 = (D + 3) mod 7"
proof -
  have "10 + D = D + 3 + 7" by simp
  then show ?thesis by (metis mod_add_self2)
qed

section \<open>The claims\<close>

subsection \<open>Layout geometry\<close>

text \<open>
  Claim C1, as stated: one header height \<open>headerHeight\<close> enters both the row height,
  \<open>(pageHeight - topMargin - bottomMargin + bonus - headerHeight) / 52\<close>, and the row
  position, \<open>pageHeight - topMargin - headerHeight - (week - 1) * rowHeight\<close>. On the page of
  the test fixture no number fits both formulas: the row height needs 43.2 points and
  the position of row 1 needs 36 points.
\<close>

theorem header_height_single_constant_counterexample:
  "\<not> (\<exists>headerHeight.
        get_row_height (calculate_dimensions letter_page []) =
          (height letter_page - top_margin letter_page - bottom_margin letter_page
             + min (0.1 * inch) (bottom_margin letter_page * 0.5) - headerHeight) / 52
      \<and> get_week_y_position (calculate_dimensions letter_page []) 1 =
          height letter_page - top_margin letter_page - headerHeight
            - real_of_int (1 - 1) * get_row_height (calculate_dimensions letter_page []))"
  by (simp add: row_height_formula week_y_formula letter_page_def inch_def)

text \<open>
  Claim C1, amended: the layout manager has two header heights. For every page, the row
  height is \<open>(height - top_margin - bottom_margin + bonus - 0.6 inch) / 52\<close> with
  \<open>bonus = min (0.1 inch) (bottom_margin * 0.5)\<close>, and the position of a week is
  \<open>height - top_margin - 0.5 inch - (week - 1) * row height\<close>, where 0.5 inch is the value
  of \<^verbatim>\<open>get_header_height\<close>.
\<close>

theorem header_height_two_constants:
  "\<exists>lm. LayoutManager_init pc lc = Inr lm
     \<and> get_row_height lm =
         (height pc - top_margin pc - bottom_margin pc
            + min (0.1 * inch) (bottom_margin pc * 0.5) - 0.6 * inch) / 52
     \<and> get_week_y_position lm week =
         height pc - top_margin pc - 0.5 * inch - real_of_int (week - 1) * get_row_height lm
     \<and> get_header_height lm = 0.5 * inch"
  by (simp add: LayoutManager_init_def row_height_formula week_y_formula get_header_height_def)

text \<open>Claim C1, amended, on the page of the test fixture: 684 / 52 points a row, and row 2 one row below 720 points.\<close>

theorem header_height_two_constants_witness:
  "\<exists>lm. LayoutManager_init letter_page [] = Inr lm
     \<and> get_row_height lm = 684 / 52
     \<and> get_week_y_position lm 2 = 720 - get_row_height lm
     \<and> get_header_height lm = 36"
  using header_height_two_constants [of letter_page "[]" 2]
  by (simp add: letter_page_def inch_def)

text \<open>
  Claim C2, as stated: a page whose margins leave no room for the rows makes the
  constructor raise. On a page 792 points high with margins of 400 points at the top
  and at the bottom, the constructor returns an object, and its row height is negative.
\<close>

theorem init_no_validation_counterexample:
  "height tall_margins_page \<le> top_margin tall_margins_page + bottom_margin tall_margins_page
   \<and> LayoutManager_init tall_margins_page [] = Inr (calculate_dimensions tall_margins_page [])
   \<and> get_row_height (calculate_dimensions tall_margins_page []) < 0"
  by (simp add: LayoutManager_init_def row_height_formula tall_margins_page_def
      letter_page_def inch_def)

text \<open>
  Claim C2, amended: the constructor checks nothing and never raises. For every page it
  returns an object whose row height is the value of the formula, and when the top and
  bottom margins add up to the page height or more, that row height is negative.
\<close>

theorem init_never_raises:
  "\<exists>lm. LayoutManager_init pc lc = Inr lm
     \<and> get_row_height lm =
         (height pc - top_margin pc - bottom_margin pc
            + min (0.1 * inch) (bottom_margin pc * 0.5) - 0.6 * inch) / 52
     \<and> (height pc \<le> top_margin pc + bottom_margin pc \<longrightarrow> get_row_height lm < 0)"
  by (auto simp add: LayoutManager_init_def row_height_formula inch_def min_def)

text \<open>Claim C2, amended, on the page with margins of 400 points.\<close>

theorem init_never_raises_witness:
  "height tall_margins_page \<le> top_margin tall_margins_page + bottom_margin tall_margins_page
   \<and> (\<exists>lm. LayoutManager_init tall_margins_page [] = Inr lm \<and> get_row_height lm < 0)"
proof -
  have h: "height tall_margins_page \<le> top_margin tall_margins_page + bottom_margin tall_margins_page"
    by (simp add: tall_margins_page_def letter_page_def)
  from init_never_raises [of tall_margins_page "[]"] h
  show ?thesis by blast
qed

subsection \<open>Quarters, months and catch-up weeks\<close>

text \<open>
  Claim C3: on the weeks 1 to 52, the table of \<^verbatim>\<open>get_month_for_week\<close> and the scan of
  \<^verbatim>\<open>draw_monthly_column\<close> agree. The scan ends without an exception, with the twelve
  months in order and four weeks for each; a week is in the list of month \<open>m\<close> exactly
  when \<^verbatim>\<open>get_month_for_week\<close> returns \<open>m\<close>; the scan leaves a week out of every list
  exactly when it is a catch-up week, and \<^verbatim>\<open>get_month_for_week\<close> returns -1 exactly then.
\<close>

theorem month_table_matches_partition:
  "1 \<le> w \<and> w \<le> 52 \<longrightarrow>
     (\<exists>lines. build_month_lines = Inr lines
        \<and> map fst lines = [1, 2, 3, 4, 5, 6, 7, 8, 9, 10, 11, 12]
        \<and> (\<forall>m ws. (m, ws) \<in> set lines \<longrightarrow>
              length ws = 4 \<and> ((w \<in> set ws) = (get_month_for_week w = m)))
        \<and> (is_catch_up_week w = (\<forall>m ws. (m, ws) \<in> set lines \<longrightarrow> w \<notin> set ws))
        \<and> ((get_month_for_week w = - 1) = is_catch_up_week w))"
proof
  assume "1 \<le> w \<and> w \<le> 52"
  then have w: "w \<in> set [1..52]" by simp
  note tbl = month_table_exec [unfolded list_all_iff, rule_format, OF w]
  note sen = month_sentinel_exec [unfolded list_all_iff, rule_format, OF w]
  have "(get_month_for_week w = - 1) = is_catch_up_week w"
    using sen by (simp add: is_catch_up_week_def CATCH_UP_WEEKS_def)
  with tbl show "\<exists>lines. build_month_lines = Inr lines
        \<and> map fst lines = [1, 2, 3, 4, 5, 6, 7, 8, 9, 10, 11, 12]
        \<and> (\<forall>m ws. (m, ws) \<in> set lines \<longrightarrow>
              length ws = 4 \<and> ((w \<in> set ws) = (get_month_for_week w = m)))
        \<and> (is_catch_up_week w = (\<forall>m ws. (m, ws) \<in> set lines \<longrightarrow> w \<notin> set ws))
        \<and> ((get_month_for_week w = - 1) = is_catch_up_week w)"
    unfolding build_month_lines_value by (intro exI conjI) (rule refl, simp, blast, blast, blast)
qed

text \<open>Claim C3 at week 14, the first week after a catch-up week.\<close>

theorem month_table_matches_partition_witness:
  "(1::int) \<le> 14 \<and> (14::int) \<le> 52 \<and>
     (\<exists>lines. build_month_lines = Inr lines
        \<and> map fst lines = [1, 2, 3, 4, 5, 6, 7, 8, 9, 10, 11, 12]
        \<and> (\<forall>m ws. (m, ws) \<in> set lines \<longrightarrow>
              length ws = 4 \<and> ((14 \<in> set ws) = (get_month_for_week 14 = m)))
        \<and> (is_catch_up_week 14 = (\<forall>m ws. (m, ws) \<in> set lines \<longrightarrow> 14 \<notin> set ws))
        \<and> ((get_month_for_week 14 = - 1) = is_catch_up_week 14))"
proof -
  have h: "(1::int) \<le> 14 \<and> (14::int) \<le> 52" by simp
  note inst = month_table_matches_partition [of 14, THEN mp, OF h]
  show ?thesis
    by (rule conjI [OF conjunct1 [OF h] conjI [OF conjunct2 [OF h] inst]])
qed

text \<open>
  Claim C4, as stated: \<^verbatim>\<open>get_quarter_for_week\<close> fails for every week outside 1 to 52.
  It returns 0 for week 0 and 5 for week 53.
\<close>

theorem get_quarter_for_week_no_range_check_counterexample:
  "get_quarter_for_week 0 = Inr 0 \<and> get_quarter_for_week 53 = Inr 5"
  by (simp add: get_quarter_for_week_def WEEKS_PER_QUARTER_def)

text \<open>
  Claim C4, amended: \<^verbatim>\<open>get_quarter_for_week\<close> has no range check and never fails: for
  every integer week it returns \<open>floor ((week - 1) / 13) + 1\<close>, and for a week outside
  1 to 52 that value is outside 1 to 4.
\<close>

theorem get_quarter_for_week_total:
  "get_quarter_for_week w = Inr ((w - 1) div 13 + 1)
   \<and> (w < 1 \<or> 52 < w \<longrightarrow> (w - 1) div 13 + 1 < 1 \<or> 4 < (w - 1) div 13 + 1)"
proof
  show "get_quarter_for_week w = Inr ((w - 1) div 13 + 1)"
    by (simp add: get_quarter_for_week_def WEEKS_PER_QUARTER_def)
  show "w < 1 \<or> 52 < w \<longrightarrow> (w - 1) div 13 + 1 < 1 \<or> 4 < (w - 1) div 13 + 1"
    by presburger
qed

text \<open>Claim C4, amended, at the weeks -3 and 66.\<close>

theorem get_quarter_for_week_total_witness:
  "get_quarter_for_week (- 3) = Inr 0 \<and> get_quarter_for_week 66 = Inr 6"
  using get_quarter_for_week_total [of "- 3"] get_quarter_for_week_total [of 66] by simp

text \<open>
  Claim C6: for a week from 1 to 52, \<^verbatim>\<open>get_quarter_for_week\<close> returns
  \<open>floor ((week - 1) / 13) + 1\<close>, a value from 1 to 4; it does not decrease when the
  week grows; and the weeks of quarter \<open>k\<close> are the 13 weeks from \<open>13 * (k - 1) + 1\<close>
  to \<open>13 * k\<close>, for each of the four quarters.
\<close>

theorem get_quarter_for_week_partition:
  "(1 \<le> w \<and> w \<le> 52 \<longrightarrow>
      (\<exists>q. get_quarter_for_week w = Inr q \<and> q = (w - 1) div 13 + 1 \<and> 1 \<le> q \<and> q \<le> 4))
   \<and> (1 \<le> w \<and> w \<le> w' \<and> w' \<le> 52 \<longrightarrow>
      (\<exists>q q'. get_quarter_for_week w = Inr q \<and> get_quarter_for_week w' = Inr q' \<and> q \<le> q'))
   \<and> (1 \<le> k \<and> k \<le> 4 \<longrightarrow>
      {v. 1 \<le> v \<and> v \<le> 52 \<and> get_quarter_for_week v = Inr k} = {13 * (k - 1) + 1 .. 13 * k}
      \<and> card {v. 1 \<le> v \<and> v \<le> 52 \<and> get_quarter_for_week v = Inr k} = 13)"
proof (intro conjI impI)
  assume w: "1 \<le> w \<and> w \<le> 52"
  then have "1 \<le> (w - 1) div 13 + 1" "(w - 1) div 13 + 1 \<le> 4" by presburger+
  then show "\<exists>q. get_quarter_for_week w = Inr q \<and> q = (w - 1) div 13 + 1 \<and> 1 \<le> q \<and> q \<le> 4"
    by (simp add: get_quarter_for_week_def WEEKS_PER_QUARTER_def)
next
  assume "1 \<le> w \<and> w \<le> w' \<and> w' \<le> 52"
  then have "(w - 1) div 13 \<le> (w' - 1) div 13"
    by (intro zdiv_mono1) simp_all
  then show "\<exists>q q'. get_quarter_for_week w = Inr q \<and> get_quarter_for_week w' = Inr q' \<and> q \<le> q'"
    by (simp add: get_quarter_for_week_def WEEKS_PER_QUARTER_def)
next
  assume k: "1 \<le> k \<and> k \<le> 4"
  show weeks: "{v. 1 \<le> v \<and> v \<le> 52 \<and> get_quarter_for_week v = Inr k} = {13 * (k - 1) + 1 .. 13 * k}"
    using k by (auto simp add: get_quarter_for_week_def WEEKS_PER_QUARTER_def quarter_bucket)
  show "card {v. 1 \<le> v \<and> v \<le> 52 \<and> get_quarter_for_week v = Inr k} = 13"
    unfolding weeks by simp
qed

text \<open>Claim C6 at the weeks 14 and 27 and at the second quarter.\<close>

theorem get_quarter_for_week_partition_witness:
  "get_quarter_for_week 14 = Inr 2 \<and> get_quarter_for_week 27 = Inr 3
   \<and> {v. 1 \<le> v \<and> v \<le> 52 \<and> get_quarter_for_week v = Inr 2} = {14 .. 26}
   \<and> card {v. 1 \<le> v \<and> v \<le> 52 \<and> get_quarter_for_week v = Inr 2} = 13"
  using get_quarter_for_week_partition [of 14 27 2]
  by (simp add: get_quarter_for_week_def WEEKS_PER_QUARTER_def)

text \<open>
  Claim C7: \<^verbatim>\<open>is_catch_up_week\<close> holds exactly for the weeks 13, 26, 39 and 52; on the
  weeks 1 to 52, \<^verbatim>\<open>get_month_for_week\<close> returns -1 for exactly these four weeks and a
  month from 1 to 12 for every other week.
\<close>

theorem catch_up_weeks_exact:
  "(is_catch_up_week w = (w \<in> {13, 26, 39, 52}))
   \<and> (1 \<le> w \<and> w \<le> 52 \<longrightarrow>
        ((get_month_for_week w = - 1) = (w \<in> {13, 26, 39, 52}))
        \<and> (w \<notin> {13, 26, 39, 52} \<longrightarrow> 1 \<le> get_month_for_week w \<and> get_month_for_week w \<le> 12))"
proof (intro conjI impI)
  show "is_catch_up_week w = (w \<in> {13, 26, 39, 52})"
    by (simp add: is_catch_up_week_def CATCH_UP_WEEKS_def)
next
  assume "1 \<le> w \<and> w \<le> 52"
  then have w: "w \<in> set [1..52]" by simp
  note sen = month_sentinel_exec [unfolded list_all_iff, rule_format, OF w]
  show "(get_month_for_week w = - 1) = (w \<in> {13, 26, 39, 52})"
    using sen by blast
  show "1 \<le> get_month_for_week w" "get_month_for_week w \<le> 12" if "w \<notin> {13, 26, 39, 52}"
    using sen that by blast+
qed

text \<open>Claim C7 at the weeks 26 and 27.\<close>

theorem catch_up_weeks_exact_witness:
  "is_catch_up_week 26 \<and> get_month_for_week 26 = - 1
   \<and> \<not> is_catch_up_week 27 \<and> 1 \<le> get_month_for_week 27 \<and> get_month_for_week 27 \<le> 12"
  using catch_up_weeks_exact [of 26] catch_up_weeks_exact [of 27] by simp

text \<open>
  Claim C9: \<^verbatim>\<open>get_month_abbreviation\<close> returns the three-letter English abbreviation for a
  month number from 1 to 12 and the empty string, without an exception, for every other
  integer.
\<close>

theorem get_month_abbreviation_lenient:
  "(1 \<le> m \<and> m \<le> 12 \<longrightarrow>
      get_month_abbreviation m =
        Inr ([''Jan'', ''Feb'', ''Mar'', ''Apr'', ''May'', ''Jun'',
              ''Jul'', ''Aug'', ''Sep'', ''Oct'', ''Nov'', ''Dec''] ! nat (m - 1)))
   \<and> (m < 1 \<or> 12 < m \<longrightarrow> get_month_abbreviation m = Inr '''')"
  by (auto simp add: get_month_abbreviation_def py_index_def abbreviations_def Let_def)

text \<open>Claim C9 at the months 1 and 12 and at 0, 13 and -7.\<close>

theorem get_month_abbreviation_lenient_witness:
  "get_month_abbreviation 1 = Inr ''Jan'' \<and> get_month_abbreviation 12 = Inr ''Dec''
   \<and> get_month_abbreviation 0 = Inr '''' \<and> get_month_abbreviation 13 = Inr ''''
   \<and> get_month_abbreviation (- 7) = Inr ''''"
  using get_month_abbreviation_lenient [of 1] get_month_abbreviation_lenient [of 12]
    get_month_abbreviation_lenient [of 0] get_month_abbreviation_lenient [of 13]
    get_month_abbreviation_lenient [of "- 7"]
  by simp

subsection \<open>The dates of the weekly column\<close>

text \<open>
  Claim C5: for every year that \<^verbatim>\<open>datetime\<close> has (1 to 9999) and every row from 1 to 52,
  \<^verbatim>\<open>draw_weekly_column\<close> raises nothing and the row's dates are these. The ISO week of
  the row is \<open>row + 1\<close> when the ISO week of December 28 is 53, and \<open>row\<close> otherwise.
  The start date is \<open>m0\<close> plus \<open>7 * (isoweek - 1)\<close> days, where \<open>m0\<close> is the Monday of the
  week that holds January 4; the end date is the start date plus 4 days; the start date
  is a Monday and the end date a Friday, and \<open>isocalendar\<close> places both in that ISO
  week of the ISO year \<open>y\<close>. The label is made of the days of the month of the two
  dates. For 2020, December 28 is in ISO week 53 and the label of row 1 is
  \<^verbatim>\<open>6-10\<close>.
\<close>

theorem weekly_column_date_ranges:
  "(1 \<le> y \<and> y \<le> 9999 \<and> 1 \<le> row \<and> row \<le> 52 \<longrightarrow>
     (\<exists>jan4 dec28 m0 rows mon fri isoweek.
        datetime_new y 1 4 = Inr jan4 \<and> datetime_new y 12 28 = Inr dec28
      \<and> datetime_add jan4 (- weekday jan4) = Inr m0
      \<and> weekday m0 = 0 \<and> toordinal m0 \<le> toordinal jan4 \<and> toordinal jan4 \<le> toordinal m0 + 6
      \<and> isoweek = (if fst (snd (isocalendar dec28)) = 53 then row + 1 else row)
      \<and> weekly_column_rows y = Inr rows \<and> length rows = 52
      \<and> py_index rows (row - 1) =
          Inr (mon, fri, str_int (dt_day mon) @ ''-'' @ str_int (dt_day fri))
      \<and> datetime_add m0 (7 * (isoweek - 1)) = Inr mon
      \<and> toordinal mon = toordinal m0 + 7 * (isoweek - 1)
      \<and> datetime_add mon 4 = Inr fri
      \<and> toordinal fri = toordinal mon + 4
      \<and> weekday mon = 0 \<and> weekday fri = 4
      \<and> isocalendar mon = (y, isoweek, 1) \<and> isocalendar fri = (y, isoweek, 5)))
   \<and> fst (snd (isocalendar \<lparr> dt_year = 2020, dt_month = 12, dt_day = 28 \<rparr>)) = 53
   \<and> and_then (weekly_column_rows 2020) (\<lambda>rows. py_index rows 0) =
       Inr (\<lparr> dt_year = 2020, dt_month = 1, dt_day = 6 \<rparr>,
            \<lparr> dt_year = 2020, dt_month = 1, dt_day = 10 \<rparr>, ''6-10'')"
proof (intro conjI impI)
  assume a: "1 \<le> y \<and> y \<le> 9999 \<and> 1 \<le> row \<and> row \<le> 52"
  then have y: "1 \<le> y" "y \<le> 9999" and row: "1 \<le> row" "row \<le> 52" by simp_all
  define jan4 where "jan4 = \<lparr> dt_year = y, dt_month = 1, dt_day = 4 \<rparr>"
  define dec28 where "dec28 = \<lparr> dt_year = y, dt_month = 12, dt_day = 28 \<rparr>"
  define M0 where "M0 = toordinal jan4 - weekday jan4"
  define s :: int where "s = (if fst (snd (isocalendar dec28)) = 53 then 2 else 1)"
  define isoweek where "isoweek = (if fst (snd (isocalendar dec28)) = 53 then row + 1 else row)"
  define mon where "mon = fromordinal (M0 + 7 * (isoweek - 1))"
  define fri where "fri = fromordinal (M0 + 7 * (isoweek - 1) + 4)"
  define rows where "rows = map (\<lambda>row. (fromordinal (M0 + (s + row - 1 - 1) * 7),
                        fromordinal (M0 + (s + row - 1 - 1) * 7 + 4),
                        str_int (dt_day (fromordinal (M0 + (s + row - 1 - 1) * 7))) @ ''-'' @
                        str_int (dt_day (fromordinal (M0 + (s + row - 1 - 1) * 7 + 4)))))
                  [1..52]"
  note v = weekly_column_rows_value [OF y, folded jan4_def dec28_def, folded M0_def s_def]
  have k: "(s + row - 1 - 1) * 7 = 7 * (isoweek - 1)"
    by (simp add: s_def isoweek_def)
  have J4: "4 \<le> toordinal jan4"
    using days_before_year_nonneg [OF y(1)] by (simp add: jan4_def toordinal_jan4)
  have M0: "M0 = toordinal jan4 - (toordinal jan4 + 6) mod 7"
    by (simp add: M0_def weekday_def)
  note mw = monday_of_week [OF J4, folded M0]
  have r: "datetime_add (fromordinal M0) (7 * (isoweek - 1)) = Inr mon"
      "toordinal mon = M0 + 7 * (isoweek - 1)"
      "datetime_add mon 4 = Inr fri"
      "toordinal fri = M0 + 7 * (isoweek - 1) + 4"
    using v(3) [OF row] unfolding k mon_def fri_def by blast+
  have wd0: "weekday (fromordinal M0) = 0"
    using mw(4) [of 0] by (simp add: weekday_def v(1))
  have wd_mon: "weekday mon = 0"
    using mw(4) [of "isoweek - 1"] by (simp add: weekday_def r(2))
  have wd_fri: "weekday fri = 4"
    using mw(5) [of "isoweek - 1"] by (simp add: weekday_def r(4))
  have w1: "isoweek1monday y = M0"
    unfolding M0 isoweek1monday_eq
    by (simp add: jan4_def toordinal_jan4 week_start_arith)
  have kb: "1 \<le> isoweek" "isoweek \<le> 53"
    using row by (simp_all add: isoweek_def)
  have nxt: "M0 + 7 * (isoweek - 1) + 4 < isoweek1monday (y + 1)"
  proof (cases "fst (snd (isocalendar dec28)) = 53")
    case True
    then have "isoweek1monday (y + 1) = M0 + 371"
      using has_iso_53_next_year [of y] by (simp add: dec28_def w1)
    then show ?thesis using kb by simp
  next
    case False
    then have "isoweek \<le> 52" using row by (simp add: isoweek_def)
    moreover have "M0 + 364 \<le> isoweek1monday (y + 1)"
      using isoweek1monday_succ [of y] unfolding w1 by linarith
    ultimately show ?thesis by simp
  qed
  have M1: "1 \<le> M0 + 7 * (isoweek - 1)"
    using v(1) M0 mw(1) kb by simp
  have iso_mon: "isocalendar mon = (y, isoweek, 1)"
  proof -
    have "isocalendar mon =
        (y, (M0 + 7 * (isoweek - 1) - M0) div 7 + 1, (M0 + 7 * (isoweek - 1) - M0) mod 7 + 1)"
      unfolding mon_def w1 [symmetric]
      by (rule isocalendar_fromordinal) (use M1 kb nxt w1 in simp_all)
    then show ?thesis by simp
  qed
  have iso_fri: "isocalendar fri = (y, isoweek, 5)"
  proof -
    have "isocalendar fri =
        (y, (M0 + 7 * (isoweek - 1) + 4 - M0) div 7 + 1,
            (M0 + 7 * (isoweek - 1) + 4 - M0) mod 7 + 1)"
      unfolding fri_def w1 [symmetric]
      by (rule isocalendar_fromordinal) (use M1 kb nxt w1 in simp_all)
    moreover have "(M0 + 7 * (isoweek - 1) + 4 - M0) = 7 * (isoweek - 1) + 4" by simp
    moreover have "(7 * (isoweek - 1) + 4) div 7 = isoweek - 1"
      by (rule div_block) simp_all
    moreover have "(7 * (isoweek - 1) + 4) mod 7 = 4"
      by (rule mod_block) simp_all
    ultimately show ?thesis by (simp only:) simp
  qed
  have idx: "py_index rows (row - 1) =
      Inr (mon, fri, str_int (dt_day mon) @ ''-'' @ str_int (dt_day fri))"
    unfolding rows_def py_index_map_upto [OF row] k mon_def fri_def by (rule refl)
  show "\<exists>jan4 dec28 m0 rows mon fri isoweek.
        datetime_new y 1 4 = Inr jan4 \<and> datetime_new y 12 28 = Inr dec28
      \<and> datetime_add jan4 (- weekday jan4) = Inr m0
      \<and> weekday m0 = 0 \<and> toordinal m0 \<le> toordinal jan4 \<and> toordinal jan4 \<le> toordinal m0 + 6
      \<and> isoweek = (if fst (snd (isocalendar dec28)) = 53 then row + 1 else row)
      \<and> weekly_column_rows y = Inr rows \<and> length rows = 52
      \<and> py_index rows (row - 1) =
          Inr (mon, fri, str_int (dt_day mon) @ ''-'' @ str_int (dt_day fri))
      \<and> datetime_add m0 (7 * (isoweek - 1)) = Inr mon
      \<and> toordinal mon = toordinal m0 + 7 * (isoweek - 1)
      \<and> datetime_add mon 4 = Inr fri
      \<and> toordinal fri = toordinal mon + 4
      \<and> weekday mon = 0 \<and> weekday fri = 4
      \<and> isocalendar mon = (y, isoweek, 1) \<and> isocalendar fri = (y, isoweek, 5)"
  proof (intro exI conjI)
    show "datetime_new y 1 4 = Inr jan4"
      unfolding jan4_def by (rule datetime_new_jan4 [OF y])
    show "datetime_new y 12 28 = Inr dec28"
      unfolding dec28_def by (rule datetime_new_dec28 [OF y])
    show "datetime_add jan4 (- weekday jan4) = Inr (fromordinal M0)" by (rule v(2))
    show "weekday (fromordinal M0) = 0" by (rule wd0)
    show "toordinal (fromordinal M0) \<le> toordinal jan4"
      using mw(2) by (simp add: v(1))
    show "toordinal jan4 \<le> toordinal (fromordinal M0) + 6"
      using mw(3) by (simp add: v(1))
    show "isoweek = (if fst (snd (isocalendar dec28)) = 53 then row + 1 else row)"
      by (rule isoweek_def)
    show "weekly_column_rows y = Inr rows" unfolding rows_def by (rule v(4))
    show "length rows = 52" by (simp add: rows_def)
    show "py_index rows (row - 1) =
      Inr (mon, fri, str_int (dt_day mon) @ ''-'' @ str_int (dt_day fri))"
      by (rule idx)
    show "datetime_add (fromordinal M0) (7 * (isoweek - 1)) = Inr mon" by (rule r(1))
    show "toordinal mon = toordinal (fromordinal M0) + 7 * (isoweek - 1)"
      by (simp add: r(2) v(1))
    show "datetime_add mon 4 = Inr fri" by (rule r(3))
    show "toordinal fri = toordinal mon + 4"
      by (simp add: r(2) r(4))
    show "weekday mon = 0" by (rule wd_mon)
    show "weekday fri = 4" by (rule wd_fri)
    show "isocalendar mon = (y, isoweek, 1)" by (rule iso_mon)
    show "isocalendar fri = (y, isoweek, 5)" by (rule iso_fri)
  qed
next
  show "fst (snd (isocalendar \<lparr> dt_year = 2020, dt_month = 12, dt_day = 28 \<rparr>)) = 53"
    by (rule year_2020_values(1))
  show "and_then (weekly_column_rows 2020) (\<lambda>rows. py_index rows 0) =
       Inr (\<lparr> dt_year = 2020, dt_month = 1, dt_day = 6 \<rparr>,
            \<lparr> dt_year = 2020, dt_month = 1, dt_day = 10 \<rparr>, ''6-10'')"
    by (rule weekly_column_rows_2020)
qed

text \<open>Claim C5 for the year 2023, row 1.\<close>

theorem weekly_column_date_ranges_witness:
  "((1::int) \<le> 2023 \<and> (2023::int) \<le> 9999 \<and> (1::int) \<le> 1 \<and> (1::int) \<le> 52) \<and>
     (\<exists>jan4 dec28 m0 rows mon fri isoweek.
        datetime_new 2023 1 4 = Inr jan4 \<and> datetime_new 2023 12 28 = Inr dec28
      \<and> datetime_add jan4 (- weekday jan4) = Inr m0
      \<and> weekday m0 = 0 \<and> toordinal m0 \<le> toordinal jan4 \<and> toordinal jan4 \<le> toordinal m0 + 6
      \<and> isoweek = (if fst (snd (isocalendar dec28)) = 53 then 1 + 1 else 1)
      \<and> weekly_column_rows 2023 = Inr rows \<and> length rows = 52
      \<and> py_index rows (1 - 1) =
          Inr (mon, fri, str_int (dt_day mon) @ ''-'' @ str_int (dt_day fri))
      \<and> datetime_add m0 (7 * (isoweek - 1)) = Inr mon
      \<and> toordinal mon = toordinal m0 + 7 * (isoweek - 1)
      \<and> datetime_add mon 4 = Inr fri
      \<and> toordinal fri = toordinal mon + 4
      \<and> weekday mon = 0 \<and> weekday fri = 4
      \<and> isocalendar mon = (2023, isoweek, 1) \<and> isocalendar fri = (2023, isoweek, 5))"
proof -
  have h: "(1::int) \<le> 2023 \<and> (2023::int) \<le> 9999 \<and> (1::int) \<le> 1 \<and> (1::int) \<le> 52"
    by simp
  note inst = weekly_column_date_ranges [of 2023 1, THEN conjunct1, THEN mp, OF h]
  show ?thesis
    by (rule conjI [OF h inst])
qed

end
